theory Spec2Isabelle
  imports Complex_Main "HOL-Library.AList" "HOL-Library.Product_Lexorder"
begin

section \<open>JavaScript values used by the charts\<close>

text \<open>
  The two scripts of the site (the sector treemap and \<open>renderMarketViz\<close>) compute with
  JavaScript numbers and strings. Numbers are modelled with their three special values
  and exact rational arithmetic on the finite ones: rounding to binary64, overflow to
  an infinity, underflow to zero and the sign of zero are abstracted away. The
  statements below therefore say which operation is applied to which operands, or
  evaluate instances on small integers and binary fractions, where binary64 is exact;
  none of them states an equation that holds by exact arithmetic only. Strings are lists
  of 8-bit code units.
\<close>

datatype jsnum = NaN | Fin rat | PInf | NInf

datatype error = TypeError

fun isNaN :: "jsnum \<Rightarrow> bool" where
  "isNaN NaN = True"
| "isNaN _ = False"

fun isFinite :: "jsnum \<Rightarrow> bool" where
  "isFinite (Fin _) = True"
| "isFinite _ = False"

text \<open>Truthiness of a number as \<open>||\<close> and \<open>if\<close> see it: \<open>0\<close> and \<open>NaN\<close> are falsy.\<close>

fun truthy :: "jsnum \<Rightarrow> bool" where
  "truthy NaN = False"
| "truthy (Fin r) = (r \<noteq> 0)"
| "truthy _ = True"

definition js_or :: "jsnum \<Rightarrow> jsnum \<Rightarrow> jsnum" where
  "js_or a b = (if truthy a then a else b)"

fun js_neg :: "jsnum \<Rightarrow> jsnum" where
  "js_neg NaN = NaN"
| "js_neg (Fin r) = Fin (- r)"
| "js_neg PInf = NInf"
| "js_neg NInf = PInf"

fun js_add :: "jsnum \<Rightarrow> jsnum \<Rightarrow> jsnum" where
  "js_add NaN _ = NaN"
| "js_add _ NaN = NaN"
| "js_add (Fin a) (Fin b) = Fin (a + b)"
| "js_add (Fin _) PInf = PInf"
| "js_add (Fin _) NInf = NInf"
| "js_add PInf NInf = NaN"
| "js_add PInf _ = PInf"
| "js_add NInf PInf = NaN"
| "js_add NInf _ = NInf"

text \<open>
  Division. The programs divide by a count that is at least one or by a total that is
  positive, so the zero divisor is never reached; it is given the value JavaScript gives
  for a positive zero.
\<close>

fun js_div :: "jsnum \<Rightarrow> jsnum \<Rightarrow> jsnum" where
  "js_div NaN _ = NaN"
| "js_div _ NaN = NaN"
| "js_div (Fin a) (Fin b) =
     (if b \<noteq> 0 then Fin (a / b) else if a = 0 then NaN else if 0 < a then PInf else NInf)"
| "js_div (Fin _) _ = Fin 0"
| "js_div PInf (Fin b) = (if 0 \<le> b then PInf else NInf)"
| "js_div NInf (Fin b) = (if 0 \<le> b then NInf else PInf)"
| "js_div _ _ = NaN"

fun js_abs :: "jsnum \<Rightarrow> jsnum" where
  "js_abs NaN = NaN"
| "js_abs (Fin r) = Fin \<bar>r\<bar>"
| "js_abs _ = PInf"

text \<open>The comparison \<open>a < b\<close>; every comparison with \<open>NaN\<close> is false.\<close>

fun js_less :: "jsnum \<Rightarrow> jsnum \<Rightarrow> bool" where
  "js_less NaN _ = False"
| "js_less _ NaN = False"
| "js_less (Fin a) (Fin b) = (a < b)"
| "js_less (Fin _) PInf = True"
| "js_less (Fin _) NInf = False"
| "js_less PInf _ = False"
| "js_less NInf NInf = False"
| "js_less NInf _ = True"

definition js_ge :: "jsnum \<Rightarrow> jsnum \<Rightarrow> bool" where
  "js_ge a b = (\<not> isNaN a \<and> \<not> isNaN b \<and> \<not> js_less a b)"

subsection \<open>Strings\<close>

text \<open>White space as \<open>String.prototype.trim\<close> and the number parsers strip it.\<close>

definition is_ws :: "char \<Rightarrow> bool" where
  "is_ws c = (of_char c \<in> {9, 10, 11, 12, 13, 32, 160 :: nat})"

definition trim :: "string \<Rightarrow> string" where
  "trim s = rev (dropWhile is_ws (rev (dropWhile is_ws s)))"

definition lower_char :: "char \<Rightarrow> char" where
  "lower_char c =
     (let n = (of_char c :: nat)
      in if (65 \<le> n \<and> n \<le> 90) \<or> (192 \<le> n \<and> n \<le> 222 \<and> n \<noteq> 215)
         then char_of (n + 32) else c)"

definition toLowerCase :: "string \<Rightarrow> string" where
  "toLowerCase s = map lower_char s"

definition is_digit :: "char \<Rightarrow> bool" where
  "is_digit c = (48 \<le> (of_char c :: nat) \<and> (of_char c :: nat) \<le> 57)"

definition digits_val :: "string \<Rightarrow> nat" where
  "digits_val ds = foldl (\<lambda>a c. 10 * a + (of_char c - 48)) 0 ds"

text \<open>
  The optional exponent of a decimal literal: the pair of the exponent and the rest of
  the string; without a digit after \<open>e\<close> there is no exponent part.
\<close>

definition exponent_part :: "string \<Rightarrow> int \<times> string" where
  "exponent_part r =
     (case r of
        [] \<Rightarrow> (0, r)
      | c # t \<Rightarrow>
          if c = CHR ''e'' \<or> c = CHR ''E'' then
            (let (sg, u) = (case t of
                              [] \<Rightarrow> (1, t)
                            | d # v \<Rightarrow> if d = CHR ''+'' then (1, v)
                                       else if d = CHR ''-'' then (- 1, v) else (1, t));
                 ed = takeWhile is_digit u
             in if ed = [] then (0, r) else (sg * int (digits_val ed), dropWhile is_digit u))
          else (0, r))"

definition scale10 :: "rat \<Rightarrow> int \<Rightarrow> rat" where
  "scale10 v e = (if 0 \<le> e then v * 10 ^ nat e else v / 10 ^ nat (- e))"

text \<open>
  The longest prefix that is an unsigned decimal literal (\<open>Infinity\<close>, digits with an
  optional fraction and exponent), with the rest of the string; \<open>NaN\<close> when there is
  none.
\<close>

definition str_unsigned :: "string \<Rightarrow> jsnum \<times> string" where
  "str_unsigned s =
     (if take 8 s = ''Infinity'' then (PInf, drop 8 s)
      else
        (let ip = takeWhile is_digit s;
             r1 = dropWhile is_digit s;
             (fp, r2) = (case r1 of
                           [] \<Rightarrow> ([], r1)
                         | c # t \<Rightarrow> if c = CHR ''.''
                                    then (takeWhile is_digit t, dropWhile is_digit t)
                                    else ([], r1))
         in if ip = [] \<and> fp = [] then (NaN, s)
            else
              (let (e, r3) = exponent_part r2
               in (Fin (scale10 (of_nat (digits_val ip)
                                 + of_nat (digits_val fp) / 10 ^ length fp) e), r3))))"

definition str_decimal :: "string \<Rightarrow> jsnum \<times> string" where
  "str_decimal t =
     (case t of
        [] \<Rightarrow> (NaN, t)
      | c # u \<Rightarrow>
          if c = CHR ''-'' then (let (v, r) = str_unsigned u in (js_neg v, r))
          else if c = CHR ''+'' then str_unsigned u
          else str_unsigned t)"

text \<open>\<open>parseFloat\<close>: leading white space is skipped, anything after the literal is ignored.\<close>

definition parseFloat :: "string \<Rightarrow> jsnum" where
  "parseFloat s = fst (str_decimal (dropWhile is_ws s))"

section \<open>The bar chart: \<open>renderMarketViz\<close>\<close>

text \<open>
  A row of a loaded CSV file is an object from column names to strings; a column the
  file does not have reads as \<open>undefined\<close> (\<open>None\<close>).
\<close>

type_synonym row = "string \<rightharpoonup> string"

text \<open>
  \<open>parsePct\<close>: \<open>undefined\<close> and the empty string give \<open>NaN\<close>; otherwise the first
  \<open>%\<close> and then the first \<open>+\<close> are removed and the rest goes to \<open>parseFloat\<close>.
\<close>

definition parsePct :: "string option \<Rightarrow> jsnum" where
  "parsePct s =
     (case s of
        None \<Rightarrow> NaN
      | Some v \<Rightarrow> if v = [] then NaN
                  else parseFloat (remove1 (CHR ''+'') (remove1 (CHR ''%'') v)))"

text \<open>
  A JavaScript \<open>Map\<close> keeps its entries in insertion order; \<open>set\<close> on a key that is
  present replaces the value in place, on a new key it appends.
\<close>

type_synonym ('k, 'v) jsmap = "('k \<times> 'v) list"

definition Map_get :: "('k, 'v) jsmap \<Rightarrow> 'k \<Rightarrow> 'v option" where
  "Map_get m k = map_of m k"

definition Map_set :: "'k \<Rightarrow> 'v \<Rightarrow> ('k, 'v) jsmap \<Rightarrow> ('k, 'v) jsmap" where
  "Map_set k v m = AList.update k v m"

definition Map_values :: "('k, 'v) jsmap \<Rightarrow> 'v list" where
  "Map_values m = map snd m"

text \<open>
  The accumulator of one group. The fields are \<open>category\<close>, \<open>code\<close>, \<open>name\<close> (crypto
  only, \<open>undefined\<close> for stocks), \<open>sum\<close> and \<open>count\<close> of the source.
\<close>

record group =
  g_category :: string
  g_code :: string
  g_name :: "string option"
  g_sum :: jsnum
  g_count :: nat

text \<open>The entry handed to the chart: \<open>id\<close>, \<open>category\<close>, \<open>code\<close>, \<open>name\<close>, \<open>avgPct\<close>,
  \<open>absAvgPct\<close>, \<open>count\<close>.\<close>

record asset =
  a_id :: string
  a_category :: string
  a_code :: string
  a_name :: "string option"
  avgPct :: jsnum
  absAvgPct :: jsnum
  a_count :: nat

text \<open>
  The body of the loop over \<open>stocksRaw\<close>. A row whose \<open>chg_%\<close> parses to \<open>NaN\<close> is
  skipped by \<open>continue\<close> before its name is read; otherwise \<open>d.name.trim()\<close> is evaluated
  and throws a \<open>TypeError\<close> when \<open>d.name\<close> is \<open>undefined\<close>.
\<close>

definition stock_step :: "(string, group) jsmap \<Rightarrow> row \<Rightarrow> error + (string, group) jsmap" where
  "stock_step stockGroups d =
     (let pct = parsePct (d ''chg_%'')
      in if isNaN pct then Inr stockGroups
         else
           (case d ''name'' of
              None \<Rightarrow> Inl TypeError
            | Some nm \<Rightarrow>
                (let key = toLowerCase (trim nm);
                     prettyName = trim nm;
                     grp = (case Map_get stockGroups key of
                              Some g \<Rightarrow> g
                            | None \<Rightarrow> \<lparr>g_category = ''Stock'', g_code = prettyName,
                                       g_name = None, g_sum = Fin 0, g_count = 0\<rparr>);
                     grp' = grp\<lparr>g_sum := js_add (g_sum grp) pct, g_count := g_count grp + 1\<rparr>
                 in Inr (Map_set key grp' stockGroups))))"

text \<open>The loop over \<open>cryptoRaw\<close>: the same with \<open>chg_24h\<close> and \<open>symbol\<close>; the group also
  keeps the first row's \<open>name\<close> as it is.\<close>

definition crypto_step :: "(string, group) jsmap \<Rightarrow> row \<Rightarrow> error + (string, group) jsmap" where
  "crypto_step cryptoGroups d =
     (let pct = parsePct (d ''chg_24h'')
      in if isNaN pct then Inr cryptoGroups
         else
           (case d ''symbol'' of
              None \<Rightarrow> Inl TypeError
            | Some sy \<Rightarrow>
                (let key = toLowerCase (trim sy);
                     symbol = trim sy;
                     name = d ''name'';
                     grp = (case Map_get cryptoGroups key of
                              Some g \<Rightarrow> g
                            | None \<Rightarrow> \<lparr>g_category = ''Crypto'', g_code = symbol,
                                       g_name = name, g_sum = Fin 0, g_count = 0\<rparr>);
                     grp' = grp\<lparr>g_sum := js_add (g_sum grp) pct, g_count := g_count grp + 1\<rparr>
                 in Inr (Map_set key grp' cryptoGroups))))"

text \<open>A \<open>for ... of\<close> loop whose body may throw: the first exception ends it.\<close>

fun for_of :: "('s \<Rightarrow> 'a \<Rightarrow> error + 's) \<Rightarrow> 's \<Rightarrow> 'a list \<Rightarrow> error + 's" where
  "for_of body s [] = Inr s"
| "for_of body s (x # xs) =
     (case body s x of Inl e \<Rightarrow> Inl e | Inr s' \<Rightarrow> for_of body s' xs)"

definition stockGroups :: "row list \<Rightarrow> error + (string, group) jsmap" where
  "stockGroups stocksRaw = for_of stock_step [] stocksRaw"

definition cryptoGroups :: "row list \<Rightarrow> error + (string, group) jsmap" where
  "cryptoGroups cryptoRaw = for_of crypto_step [] cryptoRaw"

text \<open>The mean is taken once, after the loop: \<open>avg = d.sum / d.count\<close>. The two
  \<open>map\<close> callbacks differ in the prefix of the id, the category and the \<open>name\<close> field,
  which only the crypto entries have.\<close>

definition stock_asset :: "group \<Rightarrow> asset" where
  "stock_asset d =
     (let avg = js_div (g_sum d) (Fin (of_nat (g_count d)))
      in \<lparr>a_id = ''Stock|'' @ g_code d, a_category = ''Stock'', a_code = g_code d,
          a_name = None, avgPct = avg, absAvgPct = js_abs avg, a_count = g_count d\<rparr>)"

definition crypto_asset :: "group \<Rightarrow> asset" where
  "crypto_asset d =
     (let avg = js_div (g_sum d) (Fin (of_nat (g_count d)))
      in \<lparr>a_id = ''Crypto|'' @ g_code d, a_category = ''Crypto'', a_code = g_code d,
          a_name = g_name d, avgPct = avg, absAvgPct = js_abs avg, a_count = g_count d\<rparr>)"

definition stocks :: "row list \<Rightarrow> error + asset list" where
  "stocks stocksRaw =
     (case stockGroups stocksRaw of
        Inl e \<Rightarrow> Inl e
      | Inr m \<Rightarrow> Inr (map stock_asset (Map_values m)))"

definition cryptos :: "row list \<Rightarrow> error + asset list" where
  "cryptos cryptoRaw =
     (case cryptoGroups cryptoRaw of
        Inl e \<Rightarrow> Inl e
      | Inr m \<Rightarrow> Inr (map crypto_asset (Map_values m)))"

subsection \<open>Selecting the top and the bottom performers\<close>

definition POS_N :: nat where "POS_N = 10"
definition NEG_N :: nat where "NEG_N = 10"

text \<open>\<open>d3.ascending\<close> and \<open>d3.descending\<close> on numbers.\<close>

definition d3_ascending :: "jsnum \<Rightarrow> jsnum \<Rightarrow> jsnum" where
  "d3_ascending a b =
     (if js_less a b then Fin (- 1) else if js_less b a then Fin 1
      else if js_ge a b then Fin 0 else NaN)"

definition d3_descending :: "jsnum \<Rightarrow> jsnum \<Rightarrow> jsnum" where
  "d3_descending a b =
     (if js_less b a then Fin (- 1) else if js_less a b then Fin 1
      else if js_ge b a then Fin 0 else NaN)"

text \<open>
  \<open>Array.prototype.sort\<close> with a comparator is stable: an element moves behind another
  one only when the comparator is positive on the pair. Stable insertion from the right
  computes that order.
\<close>

fun insert_cmp :: "('a \<Rightarrow> 'a \<Rightarrow> jsnum) \<Rightarrow> 'a \<Rightarrow> 'a list \<Rightarrow> 'a list" where
  "insert_cmp cmp x [] = [x]"
| "insert_cmp cmp x (y # ys) =
     (if js_less (Fin 0) (cmp x y) then y # insert_cmp cmp x ys else x # y # ys)"

definition sort_cmp :: "('a \<Rightarrow> 'a \<Rightarrow> jsnum) \<Rightarrow> 'a list \<Rightarrow> 'a list" where
  "sort_cmp cmp xs = foldr (insert_cmp cmp) xs []"

text \<open>
  \<open>pickTopBottom\<close>, with the two bounds as parameters (the source fixes both to 10).
  The concatenation is passed through a \<open>Map\<close> keyed by \<open>id\<close>.
\<close>

definition positives :: "nat \<Rightarrow> asset list \<Rightarrow> asset list" where
  "positives posN arr =
     take posN (sort_cmp (\<lambda>a b. d3_descending (avgPct a) (avgPct b))
                  (filter (\<lambda>d. js_less (Fin 0) (avgPct d)) arr))"

definition negatives :: "nat \<Rightarrow> asset list \<Rightarrow> asset list" where
  "negatives negN arr =
     rev (take negN (sort_cmp (\<lambda>a b. d3_ascending (avgPct a) (avgPct b))
                       (filter (\<lambda>d. js_less (avgPct d) (Fin 0)) arr)))"

definition pickTopBottom :: "nat \<Rightarrow> nat \<Rightarrow> asset list \<Rightarrow> asset list" where
  "pickTopBottom posN negN arr =
     Map_values (fold (\<lambda>d m. Map_set (a_id d) d m) (positives posN arr @ negatives negN arr) [])"

text \<open>
  The part of \<open>renderMarketViz\<close> between the loaded rows and the drawing: both
  aggregations, the early return when nothing parsed (\<open>None\<close>), and the two selections.
\<close>

definition renderMarketViz ::
  "row list \<Rightarrow> row list \<Rightarrow> error + ((asset list \<times> asset list) \<times> (asset list \<times> asset list)) option" where
  "renderMarketViz stocksRaw cryptoRaw =
     (case stocks stocksRaw of
        Inl e \<Rightarrow> Inl e
      | Inr st \<Rightarrow>
          (case cryptos cryptoRaw of
             Inl e \<Rightarrow> Inl e
           | Inr cr \<Rightarrow>
               if st = [] \<and> cr = [] then Inr None
               else Inr (Some ((st, cr),
                               (pickTopBottom POS_N NEG_N st, pickTopBottom POS_N NEG_N cr)))))"

section \<open>The sector treemap\<close>

text \<open>
  The treemap script converts strings with unary \<open>+\<close>: the whole trimmed string must be
  a numeric literal (a signed decimal literal, or an unsigned literal with prefix
  \<open>0x\<close>, \<open>0o\<close> or \<open>0b\<close>), the empty string is \<open>0\<close>, \<open>undefined\<close> is \<open>NaN\<close>.
\<close>

definition radix_digit :: "char \<Rightarrow> nat" where
  "radix_digit c =
     (let n = (of_char c :: nat)
      in if 48 \<le> n \<and> n \<le> 57 then n - 48
         else if 97 \<le> n \<and> n \<le> 102 then n - 87
         else if 65 \<le> n \<and> n \<le> 70 then n - 55
         else 16)"

definition non_decimal :: "string \<Rightarrow> nat option" where
  "non_decimal t =
     (case t of
        z # p # ds \<Rightarrow>
          (let b = (if p = CHR ''x'' \<or> p = CHR ''X'' then 16
                    else if p = CHR ''o'' \<or> p = CHR ''O'' then 8
                    else if p = CHR ''b'' \<or> p = CHR ''B'' then 2 else (0::nat))
           in if z = CHR ''0'' \<and> b \<noteq> 0 \<and> ds \<noteq> [] \<and> (\<forall>c \<in> set ds. radix_digit c < b)
              then Some (foldl (\<lambda>a c. b * a + radix_digit c) 0 ds)
              else None)
      | _ \<Rightarrow> None)"

definition toNumber :: "string option \<Rightarrow> jsnum" where
  "toNumber v =
     (case v of
        None \<Rightarrow> NaN
      | Some s \<Rightarrow>
          (let t = trim s
           in if t = [] then Fin 0
              else (case non_decimal t of
                      Some n \<Rightarrow> Fin (of_nat n)
                    | None \<Rightarrow> (let (x, r) = str_decimal t in if r = [] then x else NaN))))"

text \<open>\<open>parseNumber\<close>: \<open>undefined\<close> and the empty string give \<open>NaN\<close>; otherwise every
  comma is removed before the conversion.\<close>

definition parseNumber :: "string option \<Rightarrow> jsnum" where
  "parseNumber v =
     (case v of
        None \<Rightarrow> NaN
      | Some s \<Rightarrow> if s = [] then NaN else toNumber (Some (filter (\<lambda>c. c \<noteq> CHR '','') s)))"

text \<open>\<open>d3.sum\<close> adds the values that are truthy, so it skips \<open>NaN\<close> and zero.\<close>

definition d3_sum :: "('a \<Rightarrow> jsnum) \<Rightarrow> 'a list \<Rightarrow> jsnum" where
  "d3_sum valueof values =
     foldl (\<lambda>s x. let v = valueof x in if truthy v then js_add s v else s) (Fin 0) values"

text \<open>\<open>d3.mean\<close> averages the values that are numbers; with none it returns \<open>undefined\<close>.\<close>

definition d3_mean :: "('a \<Rightarrow> jsnum) \<Rightarrow> 'a list \<Rightarrow> jsnum option" where
  "d3_mean valueof values =
     (let vs = filter (\<lambda>v. \<not> isNaN v) (map valueof values)
      in if vs = [] then None
         else Some (js_div (foldl js_add (Fin 0) vs) (Fin (of_nat (length vs)))))"

text \<open>\<open>d3.rollup\<close>: the rows are grouped by key in the order in which the keys first
  appear, each group keeps its rows in input order and is then reduced.\<close>

definition d3_group :: "('a \<Rightarrow> 'k) \<Rightarrow> 'a list \<Rightarrow> ('k, 'a list) jsmap" where
  "d3_group key values =
     fold (\<lambda>v m. Map_set (key v)
                    ((case Map_get m (key v) of None \<Rightarrow> [] | Some g \<Rightarrow> g) @ [v]) m)
          values []"

definition d3_rollup :: "('a list \<Rightarrow> 'b) \<Rightarrow> ('a \<Rightarrow> 'k) \<Rightarrow> 'a list \<Rightarrow> ('k, 'b) jsmap" where
  "d3_rollup reduce key values = map (\<lambda>(k, g). (k, reduce g)) (d3_group key values)"

text \<open>\<open>sectorByTicker\<close>: a \<open>Map\<close> built from the company rows, a missing or empty sector
  stored as \<open>Unknown\<close>; a later row for a ticker replaces an earlier one.\<close>

definition or_string :: "string option \<Rightarrow> string \<Rightarrow> string" where
  "or_string v dflt = (case v of None \<Rightarrow> dflt | Some s \<Rightarrow> if s = [] then dflt else s)"

definition sectorByTicker :: "row list \<Rightarrow> (string option, string) jsmap" where
  "sectorByTicker companyRows =
     fold (\<lambda>d m. Map_set (d ''ticker'') (or_string (d ''sector'') ''Unknown'') m) companyRows []"

definition sector_key :: "row list \<Rightarrow> row \<Rightarrow> string" where
  "sector_key companyRows r =
     or_string (Map_get (sectorByTicker companyRows) (r ''symbol'')) ''Unknown''"

record stock_stats =
  totalLiquidity :: jsnum
  s_avgChange :: "jsnum option"
  s_count :: nat

definition sector_reduce :: "row list \<Rightarrow> stock_stats" where
  "sector_reduce rows =
     \<lparr>totalLiquidity = d3_sum (\<lambda>r. js_or (toNumber (r ''vol_'')) (Fin 0)) rows,
      s_avgChange = d3_mean (\<lambda>r. js_or (toNumber (r ''chg_%'')) (Fin 0)) rows,
      s_count = length rows\<rparr>"

definition sectorAgg :: "row list \<Rightarrow> row list \<Rightarrow> (string, stock_stats) jsmap" where
  "sectorAgg companyRows stockRows =
     d3_rollup sector_reduce (sector_key companyRows) stockRows"

text \<open>A leaf of the tree before and after normalisation: \<open>name\<close>, \<open>symbol\<close> (crypto
  only), \<open>type\<close>, \<open>rawValue\<close>, \<open>avgChange\<close>, \<open>count\<close>, and then \<open>value\<close>.\<close>

record leaf_raw =
  l_name :: "string option"
  l_symbol :: "string option"
  l_type :: string
  rawValue :: jsnum
  avgChange :: "jsnum option"
  l_count :: nat

record leaf = leaf_raw +
  l_value :: jsnum

definition stockChildrenRaw :: "row list \<Rightarrow> row list \<Rightarrow> leaf_raw list" where
  "stockChildrenRaw companyRows stockRows =
     filter (\<lambda>d. js_less (Fin 0) (rawValue d))
       (map (\<lambda>(sector, stats).
               \<lparr>l_name = Some sector, l_symbol = None, l_type = ''Stocks'',
                rawValue = totalLiquidity stats, avgChange = s_avgChange stats,
                l_count = s_count stats\<rparr>)
            (sectorAgg companyRows stockRows))"

definition stockTotal :: "row list \<Rightarrow> row list \<Rightarrow> jsnum" where
  "stockTotal companyRows stockRows =
     js_or (d3_sum rawValue (stockChildrenRaw companyRows stockRows)) (Fin 1)"

definition stockChildren :: "row list \<Rightarrow> row list \<Rightarrow> leaf list" where
  "stockChildren companyRows stockRows =
     map (\<lambda>d. leaf_raw.extend d
                 \<lparr>l_value = js_div (rawValue d) (stockTotal companyRows stockRows)\<rparr>)
         (stockChildrenRaw companyRows stockRows)"

record crypto_stats =
  c_name :: "string option"
  c_symbol :: "string option"
  totalCap :: jsnum
  c_avgChange :: "jsnum option"

text \<open>The reducer reads \<open>rows[0]\<close>; \<open>d3.rollup\<close> only calls it on a group with at least
  one row, and on no row the read of \<open>first.name\<close> would throw.\<close>

definition crypto_reduce :: "row list \<Rightarrow> error + crypto_stats" where
  "crypto_reduce rows =
     (case rows of
        [] \<Rightarrow> Inl TypeError
      | first # _ \<Rightarrow>
          Inr \<lparr>c_name = first ''name'', c_symbol = first ''symbol'',
               totalCap = d3_sum (\<lambda>r. parseNumber (r ''market_cap'')) rows,
               c_avgChange = d3_mean (\<lambda>r. js_or (toNumber (r ''chg_7d'')) (Fin 0)) rows\<rparr>)"

text \<open>The reductions of the groups, in order; the first one that throws ends the call.\<close>

fun rollup_err :: "('a list \<Rightarrow> error + 'b) \<Rightarrow> ('k, 'a list) jsmap \<Rightarrow> error + ('k, 'b) jsmap" where
  "rollup_err reduce [] = Inr []"
| "rollup_err reduce ((k, g) # rest) =
     (case reduce g of
        Inl e \<Rightarrow> Inl e
      | Inr v \<Rightarrow> (case rollup_err reduce rest of Inl e \<Rightarrow> Inl e | Inr m \<Rightarrow> Inr ((k, v) # m)))"

definition cryptoAgg :: "row list \<Rightarrow> error + (string option, crypto_stats) jsmap" where
  "cryptoAgg cryptoRows = rollup_err crypto_reduce (d3_group (\<lambda>r. r ''symbol'') cryptoRows)"

definition or_name :: "string option \<Rightarrow> string option \<Rightarrow> string option" where
  "or_name a b = (case a of None \<Rightarrow> b | Some s \<Rightarrow> if s = [] then b else Some s)"

definition cryptoChildrenRaw :: "(string option, crypto_stats) jsmap \<Rightarrow> leaf_raw list" where
  "cryptoChildrenRaw agg =
     filter (\<lambda>d. js_less (Fin 0) (rawValue d))
       (map (\<lambda>(symbol, stats).
               \<lparr>l_name = or_name (c_name stats) symbol, l_symbol = symbol,
                l_type = ''Crypto'', rawValue = totalCap stats,
                avgChange = c_avgChange stats, l_count = 1\<rparr>)
            agg)"

definition cryptoTotal :: "(string option, crypto_stats) jsmap \<Rightarrow> jsnum" where
  "cryptoTotal agg = js_or (d3_sum rawValue (cryptoChildrenRaw agg)) (Fin 1)"

definition cryptoChildren :: "row list \<Rightarrow> error + leaf list" where
  "cryptoChildren cryptoRows =
     (case cryptoAgg cryptoRows of
        Inl e \<Rightarrow> Inl e
      | Inr agg \<Rightarrow>
          Inr (map (\<lambda>d. leaf_raw.extend d \<lparr>l_value = js_div (rawValue d) (cryptoTotal agg)\<rparr>)
                   (cryptoChildrenRaw agg)))"

section \<open>Vocabulary of the statements\<close>

text \<open>
  The value a stock row contributes, whether the loop folds the row, the key it is
  grouped under, and the count and the sum a \<open>Map\<close> of groups holds for a key.
\<close>

definition pct_of :: "row \<Rightarrow> jsnum" where
  "pct_of d = parsePct (d ''chg_%'')"

definition valid_pct :: "row \<Rightarrow> bool" where
  "valid_pct d = (\<not> isNaN (parsePct (d ''chg_%'')))"

definition stock_key :: "row \<Rightarrow> string option" where
  "stock_key d = map_option (\<lambda>nm. toLowerCase (trim nm)) (d ''name'')"

definition in_group :: "string \<Rightarrow> row \<Rightarrow> bool" where
  "in_group k d = (valid_pct d \<and> stock_key d = Some k)"

definition count_of :: "(string, group) jsmap \<Rightarrow> string \<Rightarrow> nat" where
  "count_of m k = (case Map_get m k of None \<Rightarrow> 0 | Some g \<Rightarrow> g_count g)"

definition sum_of :: "(string, group) jsmap \<Rightarrow> string \<Rightarrow> jsnum" where
  "sum_of m k = (case Map_get m k of None \<Rightarrow> Fin 0 | Some g \<Rightarrow> g_sum g)"

text \<open>The label a row gives to the group it creates.\<close>

definition label_of :: "row \<Rightarrow> string" where
  "label_of d = (case d ''name'' of None \<Rightarrow> [] | Some nm \<Rightarrow> trim nm)"

text \<open>The group object created at the first row of a key, and one step of accumulation.\<close>

definition fresh_stock :: "string \<Rightarrow> group" where
  "fresh_stock prettyName =
     \<lparr>g_category = ''Stock'', g_code = prettyName, g_name = None, g_sum = Fin 0, g_count = 0\<rparr>"

definition accumulate :: "jsnum \<Rightarrow> group \<Rightarrow> group" where
  "accumulate pct grp = grp\<lparr>g_sum := js_add (g_sum grp) pct, g_count := g_count grp + 1\<rparr>"

text \<open>The entry of one key after folding the rows of that key, in order.\<close>

fun fold_group :: "group option \<Rightarrow> row list \<Rightarrow> group option" where
  "fold_group go [] = go"
| "fold_group go (d # ds) =
     fold_group (Some (accumulate (pct_of d)
                         (case go of None \<Rightarrow> fresh_stock (label_of d) | Some g \<Rightarrow> g))) ds"

text \<open>An order-preserving image of the numbers that are not \<open>NaN\<close>, and the two sort keys.\<close>

fun rank :: "jsnum \<Rightarrow> int \<times> rat" where
  "rank NInf = (- 1, 0)"
| "rank (Fin r) = (0, r)"
| "rank PInf = (1, 0)"
| "rank NaN = (2, 0)"

definition asc_key :: "asset \<Rightarrow> int \<times> rat" where
  "asc_key d = rank (avgPct d)"

definition desc_key :: "asset \<Rightarrow> int \<times> rat" where
  "desc_key d = (- fst (rank (avgPct d)), - snd (rank (avgPct d)))"

text \<open>The two filters of \<open>pickTopBottom\<close>.\<close>

definition is_pos :: "asset \<Rightarrow> bool" where
  "is_pos d = js_less (Fin 0) (avgPct d)"

definition is_neg :: "asset \<Rightarrow> bool" where
  "is_neg d = js_less (avgPct d) (Fin 0)"

text \<open>The pass of the candidates through the \<open>Map\<close> keyed by \<open>id\<close>.\<close>

definition dedupe :: "asset list \<Rightarrow> (string, asset) jsmap \<Rightarrow> (string, asset) jsmap" where
  "dedupe xs m = fold (\<lambda>d m. Map_set (a_id d) d m) xs m"

text \<open>Aggregation of the stock rows followed by the selection.\<close>

definition select_stocks :: "nat \<Rightarrow> nat \<Rightarrow> row list \<Rightarrow> error + asset list" where
  "select_stocks posN negN stocksRaw =
     (case stocks stocksRaw of Inl e \<Rightarrow> Inl e | Inr st \<Rightarrow> Inr (pickTopBottom posN negN st))"

text \<open>The key of a folded row, and the distinct elements of a list in order of first occurrence.\<close>

definition key_of :: "row \<Rightarrow> string" where
  "key_of d = toLowerCase (label_of d)"

definition first_seen :: "'a list \<Rightarrow> 'a list" where
  "first_seen ks = rev (remdups (rev ks))"

text \<open>One step of \<open>d3.group\<close>, the rows of one sector, the raw leaf of a sector.\<close>

definition group_step :: "('a \<Rightarrow> 'k) \<Rightarrow> 'a \<Rightarrow> ('k, 'a list) jsmap \<Rightarrow> ('k, 'a list) jsmap" where
  "group_step key v m =
     Map_set (key v) ((case Map_get m (key v) of None \<Rightarrow> [] | Some g \<Rightarrow> g) @ [v]) m"

definition sector_rows :: "row list \<Rightarrow> row list \<Rightarrow> string \<Rightarrow> row list" where
  "sector_rows companyRows stockRows sector =
     filter (\<lambda>r. sector_key companyRows r = sector) stockRows"

definition stock_leaf :: "string \<Rightarrow> stock_stats \<Rightarrow> leaf_raw" where
  "stock_leaf sector stats =
     \<lparr>l_name = Some sector, l_symbol = None, l_type = ''Stocks'',
      rawValue = totalLiquidity stats, avgChange = s_avgChange stats,
      l_count = s_count stats\<rparr>"


text \<open>The crypto leaves of a reduced \<open>Map\<close>.\<close>

definition crypto_leaves :: "(string option, crypto_stats) jsmap \<Rightarrow> leaf list" where
  "crypto_leaves agg =
     map (\<lambda>d. leaf_raw.extend d \<lparr>l_value = js_div (rawValue d) (cryptoTotal agg)\<rparr>)
         (cryptoChildrenRaw agg)"

text \<open>Whether the crypto loop folds the row.\<close>

definition valid_pct24 :: "row \<Rightarrow> bool" where
  "valid_pct24 d = (\<not> isNaN (parsePct (d ''chg_24h'')))"

text \<open>The same vocabulary for the crypto loop.\<close>

definition pct24_of :: "row \<Rightarrow> jsnum" where
  "pct24_of d = parsePct (d ''chg_24h'')"

definition crypto_key :: "row \<Rightarrow> string option" where
  "crypto_key d = map_option (\<lambda>sy. toLowerCase (trim sy)) (d ''symbol'')"

definition in_group24 :: "string \<Rightarrow> row \<Rightarrow> bool" where
  "in_group24 k d = (valid_pct24 d \<and> crypto_key d = Some k)"

definition fresh_crypto :: "row \<Rightarrow> group" where
  "fresh_crypto d =
     \<lparr>g_category = ''Crypto'',
      g_code = (case d ''symbol'' of None \<Rightarrow> [] | Some sy \<Rightarrow> trim sy),
      g_name = d ''name'', g_sum = Fin 0, g_count = 0\<rparr>"

fun fold_group24 :: "group option \<Rightarrow> row list \<Rightarrow> group option" where
  "fold_group24 go [] = go"
| "fold_group24 go (d # ds) =
     fold_group24 (Some (accumulate (pct24_of d)
                           (case go of None \<Rightarrow> fresh_crypto d | Some g \<Rightarrow> g))) ds"

section \<open>The \<open>Map\<close> and the loop\<close>

lemma Map_get_set: "Map_get (Map_set k v m) k' = (if k' = k then Some v else Map_get m k')"
  by (simp add: Map_get_def Map_set_def update_conv')

lemma Map_set_keys: "set (map fst (Map_set k v m)) = insert k (set (map fst m))"
  by (induction m) (auto simp: Map_set_def)

lemma Map_set_keys_distinct: "distinct (map fst (Map_set k v m)) = distinct (map fst m)"
  by (induction m) (auto simp: Map_set_def dom_update image_iff)

lemma Map_get_in: "Map_get m k = Some g \<Longrightarrow> (k, g) \<in> set m"
  by (simp add: Map_get_def map_of_SomeD)

lemma Map_in_get: "distinct (map fst m) \<Longrightarrow> (k, g) \<in> set m \<Longrightarrow> Map_get m k = Some g"
  by (simp add: Map_get_def)

lemma Map_set_mem:
  "(k', g) \<in> set (Map_set k v m) \<Longrightarrow> (k' = k \<and> g = v) \<or> (k', g) \<in> set m"
  by (induction m) (auto simp: Map_set_def split: if_splits)

lemma for_of_append:
  "for_of body s (xs @ ys) =
     (case for_of body s xs of Inl e \<Rightarrow> Inl e | Inr s' \<Rightarrow> for_of body s' ys)"
  by (induction xs arbitrary: s) (auto split: sum.splits)

section \<open>The aggregation of the stock rows\<close>

lemma stock_step_skip: "\<not> valid_pct d \<Longrightarrow> stock_step m d = Inr m"
  by (simp add: stock_step_def valid_pct_def)

lemma stock_step_throw: "valid_pct d \<Longrightarrow> d ''name'' = None \<Longrightarrow> stock_step m d = Inl TypeError"
  by (simp add: stock_step_def valid_pct_def)

lemma stock_step_fold:
  "valid_pct d \<Longrightarrow> d ''name'' = Some nm \<Longrightarrow>
   stock_step m d =
     Inr (Map_set (toLowerCase (trim nm))
            ((case Map_get m (toLowerCase (trim nm)) of
                Some g \<Rightarrow> g
              | None \<Rightarrow> \<lparr>g_category = ''Stock'', g_code = trim nm, g_name = None,
                         g_sum = Fin 0, g_count = 0\<rparr>)
             \<lparr>g_sum := js_add (sum_of m (toLowerCase (trim nm))) (parsePct (d ''chg_%'')),
              g_count := Suc (count_of m (toLowerCase (trim nm)))\<rparr>) m)"
  by (simp add: stock_step_def valid_pct_def Let_def count_of_def sum_of_def split: option.splits)

lemma stock_step_cases:
  assumes "stock_step m d = Inr m'"
  obtains (skip) "\<not> valid_pct d" "m' = m"
  | (fold) nm where "valid_pct d" "d ''name'' = Some nm"
      "m' = Map_set (toLowerCase (trim nm))
            ((case Map_get m (toLowerCase (trim nm)) of
                Some g \<Rightarrow> g
              | None \<Rightarrow> \<lparr>g_category = ''Stock'', g_code = trim nm, g_name = None,
                         g_sum = Fin 0, g_count = 0\<rparr>)
             \<lparr>g_sum := js_add (sum_of m (toLowerCase (trim nm))) (parsePct (d ''chg_%'')),
              g_count := Suc (count_of m (toLowerCase (trim nm)))\<rparr>) m"
proof (cases "valid_pct d")
  case False
  with assms skip show ?thesis by (simp add: stock_step_skip)
next
  case True
  show ?thesis
  proof (cases "d ''name''")
    case None
    with True assms show ?thesis by (simp add: stock_step_throw)
  next
    case (Some nm)
    with True assms fold [of nm] show ?thesis by (simp add: stock_step_fold)
  qed
qed





lemma stock_step_distinct:
  assumes "stock_step m d = Inr m'" "distinct (map fst m)"
  shows "distinct (map fst m')"
  using assms by (cases rule: stock_step_cases) (simp_all add: Map_set_keys_distinct)

lemma for_of_stock_distinct:
  "for_of stock_step m0 rows = Inr m \<Longrightarrow> distinct (map fst m0) \<Longrightarrow> distinct (map fst m)"
proof (induction rows arbitrary: m0)
  case Nil
  then show ?case by simp
next
  case (Cons d rows)
  then obtain m1 where s: "stock_step m0 d = Inr m1" and r: "for_of stock_step m1 rows = Inr m"
    by (auto split: sum.splits)
  from Cons.IH [OF r] stock_step_distinct [OF s] Cons.prems(2) show ?case by simp
qed





section \<open>The entry of one key\<close>

lemma stock_step_get:
  assumes "stock_step m d = Inr m'"
  shows "Map_get m' k =
         (if in_group k d
          then Some (accumulate (pct_of d)
                       (case Map_get m k of None \<Rightarrow> fresh_stock (label_of d) | Some g \<Rightarrow> g))
          else Map_get m k)"
  using assms
  by (cases rule: stock_step_cases)
     (auto simp: Map_get_set in_group_def stock_key_def pct_of_def label_of_def
                 fresh_stock_def accumulate_def sum_of_def count_of_def split: option.splits)

lemma for_of_stock_get:
  "for_of stock_step m0 rows = Inr m \<Longrightarrow>
   Map_get m k = fold_group (Map_get m0 k) (filter (in_group k) rows)"
proof (induction rows arbitrary: m0)
  case Nil
  then show ?case by simp
next
  case (Cons d rows)
  then obtain m1 where s: "stock_step m0 d = Inr m1" and r: "for_of stock_step m1 rows = Inr m"
    by (auto split: sum.splits)
  from Cons.IH [OF r] stock_step_get [OF s, of k] show ?case by simp
qed

lemma fold_group_code:
  "fold_group (Some g0) ds = Some g \<Longrightarrow> g_code g = g_code g0"
  by (induction ds arbitrary: g0) (auto simp: accumulate_def)

lemma fold_group_None: "fold_group None ds = None \<longleftrightarrow> ds = []"
proof (cases ds)
  case Nil then show ?thesis by simp
next
  case (Cons d ds')
  have "\<And>g0. fold_group (Some g0) ds' \<noteq> None"
    by (induction ds') auto
  with Cons show ?thesis by simp
qed

lemma for_of_stock_ok:
  "(\<exists>m. for_of stock_step m0 rows = Inr m) \<longleftrightarrow>
   (\<forall>d \<in> set rows. valid_pct d \<longrightarrow> d ''name'' \<noteq> None)"
proof (induction rows arbitrary: m0)
  case Nil
  then show ?case by simp
next
  case (Cons d rows)
  show ?case
  proof (cases "valid_pct d")
    case False
    with Cons.IH [of m0] show ?thesis by (simp add: stock_step_skip)
  next
    case True
    show ?thesis
    proof (cases "d ''name''")
      case None
      with True show ?thesis by (auto simp: stock_step_throw)
    next
      case (Some nm)
      from stock_step_fold [OF True Some, of m0] obtain m1 where "stock_step m0 d = Inr m1"
        by blast
      with Cons.IH [of m1] True Some show ?thesis by simp
    qed
  qed
qed

text \<open>Removing a row: the run still succeeds and the entries of the other keys stay.\<close>

lemma stock_step_frame:
  assumes "stock_step m d = Inr m'" "stock_key d \<noteq> Some k"
  shows "Map_get m' k = Map_get m k"
  using assms by (cases rule: stock_step_cases) (auto simp: Map_get_set stock_key_def)

lemma stockGroups_frame:
  assumes "stockGroups (xs @ d # ys) = Inr m"
  shows "\<exists>m'. stockGroups (xs @ ys) = Inr m'
            \<and> (\<forall>k. \<not> in_group k d \<longrightarrow> Map_get m k = Map_get m' k)"
proof -
  from assms have run: "for_of stock_step [] (xs @ d # ys) = Inr m"
    by (simp add: stockGroups_def)
  then have "\<exists>m. for_of stock_step [] (xs @ d # ys) = Inr m" ..
  then have "\<forall>r \<in> set (xs @ ys). valid_pct r \<longrightarrow> r ''name'' \<noteq> None"
    unfolding for_of_stock_ok by simp
  then have "\<exists>m'. for_of stock_step [] (xs @ ys) = Inr m'"
    unfolding for_of_stock_ok .
  then obtain m' where run': "for_of stock_step [] (xs @ ys) = Inr m'" ..
  have "Map_get m k = Map_get m' k" if "\<not> in_group k d" for k
    using that for_of_stock_get [OF run, of k] for_of_stock_get [OF run', of k] by simp
  with run' show ?thesis by (auto simp: stockGroups_def)
qed

lemma for_of_stock_error:
  "for_of stock_step m0 rows = Inl e \<Longrightarrow> e = TypeError"
  by (cases e) simp

text \<open>
  C7, as amended. The label of a group (\<open>code\<close>) is the name of the first folded row of
  the group with the surrounding white space removed and the case kept: the source
  stores \<open>d.name.trim()\<close>, not the untrimmed value. Whatever rows of the group follow,
  the label stays the one of the first.
\<close>

theorem label_first_trimmed:
  assumes "stockGroups rows = Inr m" and "(k, g) \<in> set m"
  shows "\<exists>d ds nm. filter (in_group k) rows = d # ds \<and> d ''name'' = Some nm
                  \<and> g_code g = trim nm"
proof -
  from assms(1) have run: "for_of stock_step [] rows = Inr m"
    by (simp add: stockGroups_def)
  from for_of_stock_distinct [OF run] have dist: "distinct (map fst m)" by simp
  from Map_in_get [OF dist assms(2)] have get: "Map_get m k = Some g" .
  with for_of_stock_get [OF run, of k]
  have fg: "fold_group None (filter (in_group k) rows) = Some g"
    by (simp add: Map_get_def)
  then obtain d ds where f: "filter (in_group k) rows = d # ds"
    by (cases "filter (in_group k) rows") auto
  then have "d \<in> set (filter (in_group k) rows)" by simp
  then have "in_group k d" by simp
  then obtain nm where nm: "d ''name'' = Some nm"
    by (auto simp: in_group_def stock_key_def)
  from fg f have "fold_group (Some (accumulate (pct_of d) (fresh_stock (label_of d)))) ds = Some g"
    by simp
  from fold_group_code [OF this] nm have "g_code g = trim nm"
    by (simp add: accumulate_def fresh_stock_def label_of_def)
  with f nm show ?thesis by blast
qed

theorem label_first_trimmed_witness:
  "stockGroups [[''name'' \<mapsto> '' Abc '', ''chg_%'' \<mapsto> ''1''],
                [''name'' \<mapsto> ''ABC'', ''chg_%'' \<mapsto> ''2'']] =
     Inr [(''abc'', \<lparr>g_category = ''Stock'', g_code = ''Abc'', g_name = None,
                    g_sum = Fin 3, g_count = 2\<rparr>)]
   \<and> (\<exists>d ds nm. filter (in_group ''abc'')
                   [[''name'' \<mapsto> '' Abc '', ''chg_%'' \<mapsto> ''1''],
                    [''name'' \<mapsto> ''ABC'', ''chg_%'' \<mapsto> ''2'']] = d # ds
        \<and> d ''name'' = Some nm
        \<and> g_code \<lparr>g_category = ''Stock'', g_code = ''Abc'', g_name = None,
                   g_sum = Fin 3, g_count = 2\<rparr> = trim nm)"
proof -
  have run: "stockGroups [[''name'' \<mapsto> '' Abc '', ''chg_%'' \<mapsto> ''1''],
                [''name'' \<mapsto> ''ABC'', ''chg_%'' \<mapsto> ''2'']] =
     Inr [(''abc'', \<lparr>g_category = ''Stock'', g_code = ''Abc'', g_name = None,
                    g_sum = Fin 3, g_count = 2\<rparr>)]"
    by code_simp
  have mem: "(''abc'', \<lparr>g_category = ''Stock'', g_code = ''Abc'', g_name = None,
                    g_sum = Fin 3, g_count = 2\<rparr>)
             \<in> set [(''abc'', \<lparr>g_category = ''Stock'', g_code = ''Abc'', g_name = None,
                    g_sum = Fin 3, g_count = 2\<rparr>)]"
    by simp
  from run label_first_trimmed [OF run mem] show ?thesis by (rule conjI)
qed

theorem untrimmed_label_counterexample:
  "stockGroups [[''name'' \<mapsto> '' AAA '', ''chg_%'' \<mapsto> ''1'']] =
     Inr [(''aaa'', \<lparr>g_category = ''Stock'', g_code = ''AAA'', g_name = None,
                    g_sum = Fin 1, g_count = 1\<rparr>)]
   \<and> ''AAA'' \<noteq> '' AAA ''"
  by code_simp

section \<open>Sorting and the pass through the \<open>Map\<close>\<close>

lemma js_less_rank: "\<not> isNaN a \<Longrightarrow> \<not> isNaN b \<Longrightarrow> js_less a b \<longleftrightarrow> rank a < rank b"
  by (cases a; cases b) simp_all

lemma js_ge_rank: "\<not> isNaN a \<Longrightarrow> \<not> isNaN b \<Longrightarrow> js_ge a b \<longleftrightarrow> rank b \<le> rank a"
  by (cases a; cases b) (auto simp: js_ge_def)

lemma pos_not_NaN: "js_less (Fin 0) a \<Longrightarrow> \<not> isNaN a"
  by (cases a) simp_all

lemma neg_not_NaN: "js_less a (Fin 0) \<Longrightarrow> \<not> isNaN a"
  by (cases a) simp_all

lemma ascending_after:
  "\<not> isNaN a \<Longrightarrow> \<not> isNaN b \<Longrightarrow>
   js_less (Fin 0) (d3_ascending a b) \<longleftrightarrow> \<not> rank a \<le> rank b"
  by (cases a; cases b) (auto simp: d3_ascending_def js_ge_def)

lemma descending_after:
  "\<not> isNaN a \<Longrightarrow> \<not> isNaN b \<Longrightarrow>
   js_less (Fin 0) (d3_descending a b) \<longleftrightarrow>
   \<not> (- fst (rank a), - snd (rank a)) \<le> (- fst (rank b), - snd (rank b))"
  by (cases a; cases b) (auto simp: d3_descending_def js_ge_def)

lemma insert_cmp_ascending:
  assumes "\<not> isNaN (avgPct x)" "\<forall>y \<in> set ys. \<not> isNaN (avgPct y)"
  shows "insert_cmp (\<lambda>a b. d3_ascending (avgPct a) (avgPct b)) x ys = insort_key asc_key x ys"
  using assms by (induction ys) (simp_all add: ascending_after asc_key_def)

lemma insert_cmp_descending:
  assumes "\<not> isNaN (avgPct x)" "\<forall>y \<in> set ys. \<not> isNaN (avgPct y)"
  shows "insert_cmp (\<lambda>a b. d3_descending (avgPct a) (avgPct b)) x ys = insort_key desc_key x ys"
  using assms by (induction ys) (simp_all add: descending_after desc_key_def)

lemma sort_cmp_ascending:
  "\<forall>y \<in> set xs. \<not> isNaN (avgPct y) \<Longrightarrow>
   sort_cmp (\<lambda>a b. d3_ascending (avgPct a) (avgPct b)) xs = sort_key asc_key xs"
proof (induction xs)
  case Nil
  then show ?case by (simp add: sort_cmp_def)
next
  case (Cons x xs)
  then have "sort_cmp (\<lambda>a b. d3_ascending (avgPct a) (avgPct b)) xs = sort_key asc_key xs"
    by simp
  moreover from Cons.prems have "\<forall>y \<in> set (sort_key asc_key xs). \<not> isNaN (avgPct y)"
    by simp
  ultimately show ?case using Cons.prems
    by (simp add: sort_cmp_def sort_key_def insert_cmp_ascending)
qed

lemma sort_cmp_descending:
  "\<forall>y \<in> set xs. \<not> isNaN (avgPct y) \<Longrightarrow>
   sort_cmp (\<lambda>a b. d3_descending (avgPct a) (avgPct b)) xs = sort_key desc_key xs"
proof (induction xs)
  case Nil
  then show ?case by (simp add: sort_cmp_def)
next
  case (Cons x xs)
  then have "sort_cmp (\<lambda>a b. d3_descending (avgPct a) (avgPct b)) xs = sort_key desc_key xs"
    by simp
  moreover from Cons.prems have "\<forall>y \<in> set (sort_key desc_key xs). \<not> isNaN (avgPct y)"
    by simp
  ultimately show ?case using Cons.prems
    by (simp add: sort_cmp_def sort_key_def insert_cmp_descending)
qed

lemma positives_sort_key:
  "positives posN arr = take posN (sort_key desc_key (filter is_pos arr))"
proof -
  have "\<forall>y \<in> set (filter is_pos arr). \<not> isNaN (avgPct y)"
    by (simp add: is_pos_def pos_not_NaN)
  moreover have "filter (\<lambda>d. js_less (Fin 0) (avgPct d)) arr = filter is_pos arr"
    by (rule filter_cong) (simp_all add: is_pos_def)
  ultimately show ?thesis
    by (simp add: positives_def sort_cmp_descending)
qed

lemma negatives_sort_key:
  "negatives negN arr = rev (take negN (sort_key asc_key (filter is_neg arr)))"
proof -
  have "\<forall>y \<in> set (filter is_neg arr). \<not> isNaN (avgPct y)"
    by (simp add: is_neg_def neg_not_NaN)
  moreover have "filter (\<lambda>d. js_less (avgPct d) (Fin 0)) arr = filter is_neg arr"
    by (rule filter_cong) (simp_all add: is_neg_def)
  ultimately show ?thesis
    by (simp add: negatives_def sort_cmp_ascending)
qed

lemma Map_set_length: "length (Map_set k v m) \<le> Suc (length m)"
  by (induction m) (auto simp: Map_set_def)

lemma dedupe_length: "length (dedupe xs m) \<le> length m + length xs"
proof (induction xs arbitrary: m)
  case Nil
  then show ?case by (simp add: dedupe_def)
next
  case (Cons x xs)
  have "length (dedupe (x # xs) m) = length (dedupe xs (Map_set (a_id x) x m))"
    by (simp add: dedupe_def)
  also have "\<dots> \<le> length (Map_set (a_id x) x m) + length xs" by (rule Cons.IH)
  also have "\<dots> \<le> length m + length (x # xs)" using Map_set_length [of "a_id x" x m] by simp
  finally show ?case .
qed

lemma Map_set_values: "set (map snd (Map_set k v m)) \<subseteq> insert v (set (map snd m))"
  by (induction m) (auto simp: Map_set_def)

lemma dedupe_values: "set (map snd (dedupe xs m)) \<subseteq> set (map snd m) \<union> set xs"
proof (induction xs arbitrary: m)
  case Nil
  then show ?case by (simp add: dedupe_def)
next
  case (Cons x xs)
  have "dedupe (x # xs) m = dedupe xs (Map_set (a_id x) x m)" by (simp add: dedupe_def)
  with Cons.IH [of "Map_set (a_id x) x m"] Map_set_values [of "a_id x" x m]
  show ?case by auto
qed

lemma Map_set_fresh: "k \<notin> set (map fst m) \<Longrightarrow> Map_set k v m = m @ [(k, v)]"
  by (induction m) (auto simp: Map_set_def)

lemma dedupe_distinct:
  "distinct (map a_id xs) \<Longrightarrow> set (map a_id xs) \<inter> set (map fst m) = {} \<Longrightarrow>
   dedupe xs m = m @ map (\<lambda>d. (a_id d, d)) xs"
proof (induction xs arbitrary: m)
  case Nil
  then show ?case by (simp add: dedupe_def)
next
  case (Cons x xs)
  from Cons.prems have fresh: "a_id x \<notin> set (map fst m)" by auto
  have "dedupe (x # xs) m = dedupe xs (m @ [(a_id x, x)])"
    by (simp add: dedupe_def Map_set_fresh [OF fresh])
  also have "\<dots> = (m @ [(a_id x, x)]) @ map (\<lambda>d. (a_id d, d)) xs"
    using Cons.prems by (intro Cons.IH) auto
  finally show ?case by simp
qed

lemma pickTopBottom_dedupe:
  "pickTopBottom posN negN arr = map snd (dedupe (positives posN arr @ negatives negN arr) [])"
  by (simp add: pickTopBottom_def dedupe_def Map_values_def)

lemma positives_sub: "set (positives posN arr) \<subseteq> {d \<in> set arr. is_pos d}"
  using set_take_subset [of posN "sort_key desc_key (filter is_pos arr)"]
  by (auto simp: positives_sort_key)

lemma negatives_sub: "set (negatives negN arr) \<subseteq> {d \<in> set arr. is_neg d}"
  using set_take_subset [of negN "sort_key asc_key (filter is_neg arr)"]
  by (auto simp: negatives_sort_key)

lemma pos_neg_disjoint: "is_pos d \<Longrightarrow> \<not> is_neg d"
  by (cases "avgPct d") (auto simp: is_pos_def is_neg_def)

lemma candidates_distinct:
  assumes "distinct (map a_id arr)"
  shows "distinct (map a_id (positives posN arr @ negatives negN arr))"
proof -
  have inj: "inj_on a_id (set arr)" using assms by (simp add: distinct_map)
  from assms have darr: "distinct arr" by (simp add: distinct_map)
  have dp: "distinct (positives posN arr)"
    by (simp add: positives_sort_key darr)
  have dn: "distinct (negatives negN arr)"
    by (simp add: negatives_sort_key darr)
  have disj: "set (positives posN arr) \<inter> set (negatives negN arr) = {}"
    using positives_sub [of posN arr] negatives_sub [of negN arr] pos_neg_disjoint by blast
  have sub: "set (positives posN arr @ negatives negN arr) \<subseteq> set arr"
    using positives_sub [of posN arr] negatives_sub [of negN arr] by auto
  have "distinct (positives posN arr @ negatives negN arr)" using dp dn disj by simp
  moreover have "inj_on a_id (set (positives posN arr @ negatives negN arr))"
    using inj sub by (rule inj_on_subset)
  ultimately show ?thesis unfolding distinct_map by (rule conjI)
qed

lemma pickTopBottom_distinct:
  assumes "distinct (map a_id arr)"
  shows "pickTopBottom posN negN arr = positives posN arr @ negatives negN arr"
proof -
  from dedupe_distinct [OF candidates_distinct [OF assms], where m = "[]"]
  show ?thesis by (simp add: pickTopBottom_dedupe comp_def)
qed

lemma desc_key_le: "desc_key x \<le> desc_key y \<longleftrightarrow> asc_key y \<le> asc_key x"
  by (cases "rank (avgPct x)"; cases "rank (avgPct y)") (auto simp: desc_key_def asc_key_def)

lemma asc_key_ge:
  "\<not> isNaN (avgPct x) \<Longrightarrow> \<not> isNaN (avgPct y) \<Longrightarrow>
   asc_key y \<le> asc_key x \<longleftrightarrow> js_ge (avgPct x) (avgPct y)"
  by (simp add: asc_key_def js_ge_rank)

lemma is_pos_not_NaN: "is_pos d \<Longrightarrow> \<not> isNaN (avgPct d)"
  by (simp add: is_pos_def pos_not_NaN)

lemma is_neg_not_NaN: "is_neg d \<Longrightarrow> \<not> isNaN (avgPct d)"
  by (simp add: is_neg_def neg_not_NaN)

lemma is_pos_nonzero: "is_pos d \<Longrightarrow> avgPct d \<noteq> Fin 0"
  by (auto simp: is_pos_def)

lemma is_neg_nonzero: "is_neg d \<Longrightarrow> avgPct d \<noteq> Fin 0"
  by (auto simp: is_neg_def)

lemma pos_ge_neg: "is_pos x \<Longrightarrow> is_neg y \<Longrightarrow> js_ge (avgPct x) (avgPct y)"
  by (cases "avgPct x"; cases "avgPct y") (auto simp: is_pos_def is_neg_def js_ge_def)

lemma positives_descending:
  "sorted_wrt (\<lambda>a b. js_ge (avgPct a) (avgPct b)) (positives posN arr)"
proof -
  have "sorted (map desc_key (sort_key desc_key (filter is_pos arr)))"
    by (rule sorted_sort_key)
  then have "sorted_wrt (\<lambda>a b. desc_key a \<le> desc_key b) (sort_key desc_key (filter is_pos arr))"
    by (simp add: sorted_map)
  then have "sorted_wrt (\<lambda>a b. desc_key a \<le> desc_key b) (positives posN arr)"
    unfolding positives_sort_key by (rule sorted_wrt_take)
  moreover have "\<forall>d \<in> set (positives posN arr). \<not> isNaN (avgPct d)"
    using positives_sub [of posN arr] is_pos_not_NaN by auto
  ultimately show ?thesis
    by (elim sorted_wrt_mono_rel [rotated]) (simp add: desc_key_le asc_key_ge)
qed

lemma negatives_ascending:
  "sorted_wrt (\<lambda>a b. js_ge (avgPct b) (avgPct a)) (rev (negatives negN arr))"
proof -
  have "sorted (map asc_key (sort_key asc_key (filter is_neg arr)))"
    by (rule sorted_sort_key)
  then have "sorted_wrt (\<lambda>a b. asc_key a \<le> asc_key b) (sort_key asc_key (filter is_neg arr))"
    by (simp add: sorted_map)
  then have "sorted_wrt (\<lambda>a b. asc_key a \<le> asc_key b) (rev (negatives negN arr))"
    unfolding negatives_sort_key rev_rev_ident by (rule sorted_wrt_take)
  moreover have "\<forall>d \<in> set (rev (negatives negN arr)). \<not> isNaN (avgPct d)"
    using negatives_sub [of negN arr] is_neg_not_NaN by auto
  ultimately show ?thesis
    by (elim sorted_wrt_mono_rel [rotated]) (simp add: asc_key_ge)
qed

lemma candidates_descending:
  "sorted_wrt (\<lambda>a b. js_ge (avgPct a) (avgPct b)) (positives posN arr @ negatives negN arr)"
proof -
  have "sorted_wrt (\<lambda>a b. js_ge (avgPct a) (avgPct b)) (negatives negN arr)"
    using negatives_ascending [of negN arr] by (simp add: sorted_wrt_rev)
  moreover have "\<forall>x \<in> set (positives posN arr). \<forall>y \<in> set (negatives negN arr).
                   js_ge (avgPct x) (avgPct y)"
    using positives_sub [of posN arr] negatives_sub [of negN arr] pos_ge_neg by blast
  ultimately show ?thesis
    using positives_descending [of posN arr] by (simp add: sorted_wrt_append)
qed

lemma positives_length: "length (positives posN arr) = min posN (length (filter is_pos arr))"
  by (simp add: positives_sort_key min.commute)

lemma positives_top:
  assumes "x \<in> set (positives posN arr)" "y \<in> set arr" "is_pos y" "y \<notin> set (positives posN arr)"
  shows "js_ge (avgPct x) (avgPct y)"
proof -
  let ?s = "sort_key desc_key (filter is_pos arr)"
  have "sorted (map desc_key (take posN ?s @ drop posN ?s))"
    by (simp only: append_take_drop_id sorted_sort_key)
  then have "sorted (map desc_key (take posN ?s) @ map desc_key (drop posN ?s))"
    by (simp only: map_append)
  then have split: "\<forall>a \<in> set (take posN ?s). \<forall>b \<in> set (drop posN ?s). desc_key a \<le> desc_key b"
    unfolding sorted_append by auto
  from assms(2,3) have "y \<in> set (take posN ?s @ drop posN ?s)" by simp
  with assms(4) have "y \<in> set (drop posN ?s)"
    by (auto simp: positives_sort_key simp del: append_take_drop_id)
  with split assms(1) have "desc_key x \<le> desc_key y" by (simp add: positives_sort_key)
  moreover from assms(1) positives_sub [of posN arr] have "is_pos x" by auto
  ultimately show ?thesis using assms(3)
    by (simp add: desc_key_le asc_key_ge is_pos_not_NaN)
qed

text \<open>
  C2. \<open>pickTopBottom\<close> returns at most \<open>posN + negN\<close> entries; every returned entry is
  an entry of the input whose mean is positive or negative, hence not 0, so an input
  whose means are all 0 gives the empty selection. The entries are identified by
  \<open>id\<close>, and both aggregations yield pairwise distinct ids (\<open>stocks_ids_distinct\<close>,
  \<open>cryptos_ids_distinct\<close>); on
  such an input the returned positive entries are the first \<open>posN\<close> of the positive
  entries in descending order, there are \<open>min posN\<close> (number of positive entries) of them,
  and each has a mean at least that of every positive entry that is not returned.
\<close>

theorem pickTopBottom_top:
  "length (pickTopBottom posN negN arr) \<le> posN + negN
   \<and> (\<forall>d \<in> set (pickTopBottom posN negN arr).
         d \<in> set arr \<and> avgPct d \<noteq> Fin 0 \<and> (is_pos d \<or> is_neg d))
   \<and> ((\<forall>d \<in> set arr. avgPct d = Fin 0) \<longrightarrow> pickTopBottom posN negN arr = [])
   \<and> (distinct (map a_id arr) \<longrightarrow>
        filter is_pos (pickTopBottom posN negN arr) = positives posN arr
      \<and> length (filter is_pos (pickTopBottom posN negN arr))
          = min posN (length (filter is_pos arr))
      \<and> (\<forall>x \<in> set (pickTopBottom posN negN arr). \<forall>y \<in> set arr.
            is_pos x \<and> is_pos y \<and> y \<notin> set (pickTopBottom posN negN arr)
            \<longrightarrow> js_ge (avgPct x) (avgPct y)))"
proof -
  let ?c = "positives posN arr @ negatives negN arr"
  have "length (pickTopBottom posN negN arr) \<le> length ?c"
    using dedupe_length [of ?c "[]"] by (simp add: pickTopBottom_dedupe)
  also have "\<dots> \<le> posN + negN"
    by (simp add: positives_sort_key negatives_sort_key)
  finally have len: "length (pickTopBottom posN negN arr) \<le> posN + negN" .
  have sub: "set (pickTopBottom posN negN arr) \<subseteq> set ?c"
    using dedupe_values [of ?c "[]"] by (simp add: pickTopBottom_dedupe)
  have mem: "\<forall>d \<in> set (pickTopBottom posN negN arr).
               d \<in> set arr \<and> avgPct d \<noteq> Fin 0 \<and> (is_pos d \<or> is_neg d)"
  proof
    fix d assume "d \<in> set (pickTopBottom posN negN arr)"
    with sub have "d \<in> set (positives posN arr) \<or> d \<in> set (negatives negN arr)" by auto
    with positives_sub [of posN arr] negatives_sub [of negN arr]
    have "d \<in> set arr \<and> (is_pos d \<or> is_neg d)" by auto
    with is_pos_nonzero [of d] is_neg_nonzero [of d]
    show "d \<in> set arr \<and> avgPct d \<noteq> Fin 0 \<and> (is_pos d \<or> is_neg d)" by blast
  qed
  have zero: "pickTopBottom posN negN arr = []" if "\<forall>d \<in> set arr. avgPct d = Fin 0"
  proof -
    show ?thesis
    proof (cases "pickTopBottom posN negN arr")
      case Nil
      then show ?thesis .
    next
      case (Cons x xs)
      then have "x \<in> set (pickTopBottom posN negN arr)" by simp
      with mem have "x \<in> set arr" "avgPct x \<noteq> Fin 0" by auto
      with that show ?thesis by simp
    qed
  qed
  have top: "filter is_pos (pickTopBottom posN negN arr) = positives posN arr
      \<and> length (filter is_pos (pickTopBottom posN negN arr))
          = min posN (length (filter is_pos arr))
      \<and> (\<forall>x \<in> set (pickTopBottom posN negN arr). \<forall>y \<in> set arr.
            is_pos x \<and> is_pos y \<and> y \<notin> set (pickTopBottom posN negN arr)
            \<longrightarrow> js_ge (avgPct x) (avgPct y))"
    if d: "distinct (map a_id arr)"
  proof -
    note eq = pickTopBottom_distinct [OF d, of posN negN]
    have fp: "filter is_pos (positives posN arr) = positives posN arr"
      using positives_sub [of posN arr] by (auto simp: filter_id_conv)
    have fn: "filter is_pos (negatives negN arr) = []"
      using negatives_sub [of negN arr] pos_neg_disjoint by (auto simp: filter_empty_conv)
    from fp fn have f: "filter is_pos (pickTopBottom posN negN arr) = positives posN arr"
      by (simp add: eq)
    have t: "js_ge (avgPct x) (avgPct y)"
      if "x \<in> set (pickTopBottom posN negN arr)" "y \<in> set arr" "is_pos x" "is_pos y"
         "y \<notin> set (pickTopBottom posN negN arr)" for x y
    proof -
      from that(1,3) have "x \<in> set (filter is_pos (pickTopBottom posN negN arr))" by simp
      then have "x \<in> set (positives posN arr)" by (simp only: f)
      moreover from that(5) have "y \<notin> set (positives posN arr)" by (simp add: eq)
      ultimately show ?thesis using that(2,4) by (intro positives_top)
    qed
    from f t show ?thesis by (auto simp: positives_length)
  qed
  from len mem zero top show ?thesis by blast
qed

theorem pickTopBottom_top_witness:
  "distinct (map a_id
     [stock_asset \<lparr>g_category = ''Stock'', g_code = ''A'', g_name = None, g_sum = Fin 2, g_count = 1\<rparr>,
      stock_asset \<lparr>g_category = ''Stock'', g_code = ''B'', g_name = None, g_sum = Fin 5, g_count = 1\<rparr>,
      stock_asset \<lparr>g_category = ''Stock'', g_code = ''C'', g_name = None, g_sum = Fin (- 3), g_count = 1\<rparr>])
   \<and> filter is_pos (pickTopBottom 1 1
     [stock_asset \<lparr>g_category = ''Stock'', g_code = ''A'', g_name = None, g_sum = Fin 2, g_count = 1\<rparr>,
      stock_asset \<lparr>g_category = ''Stock'', g_code = ''B'', g_name = None, g_sum = Fin 5, g_count = 1\<rparr>,
      stock_asset \<lparr>g_category = ''Stock'', g_code = ''C'', g_name = None, g_sum = Fin (- 3), g_count = 1\<rparr>])
     = [stock_asset \<lparr>g_category = ''Stock'', g_code = ''B'', g_name = None, g_sum = Fin 5, g_count = 1\<rparr>]"
proof -
  let ?arr = "[stock_asset \<lparr>g_category = ''Stock'', g_code = ''A'', g_name = None, g_sum = Fin 2, g_count = 1\<rparr>,
      stock_asset \<lparr>g_category = ''Stock'', g_code = ''B'', g_name = None, g_sum = Fin 5, g_count = 1\<rparr>,
      stock_asset \<lparr>g_category = ''Stock'', g_code = ''C'', g_name = None, g_sum = Fin (- 3), g_count = 1\<rparr>]"
  have d: "distinct (map a_id ?arr)" by code_simp
  have p: "positives 1 ?arr
           = [stock_asset \<lparr>g_category = ''Stock'', g_code = ''B'', g_name = None, g_sum = Fin 5, g_count = 1\<rparr>]"
    by code_simp
  from pickTopBottom_top [where arr = ?arr and posN = 1 and negN = 1,
      THEN conjunct2, THEN conjunct2, THEN conjunct2, rule_format, OF d, THEN conjunct1]
  have "filter is_pos (pickTopBottom 1 1 ?arr) = positives 1 ?arr" .
  with p have "filter is_pos (pickTopBottom 1 1 ?arr)
           = [stock_asset \<lparr>g_category = ''Stock'', g_code = ''B'', g_name = None, g_sum = Fin 5, g_count = 1\<rparr>]"
    by simp
  with d show ?thesis by (rule conjI)
qed

lemma stock_step_code:
  assumes "stock_step m d = Inr m'"
    and "\<forall>(k, g) \<in> set m. k = toLowerCase (g_code g) \<and> g_category g = ''Stock''"
  shows "\<forall>(k, g) \<in> set m'. k = toLowerCase (g_code g) \<and> g_category g = ''Stock''"
  using assms
proof (cases rule: stock_step_cases)
  case skip
  with assms show ?thesis by simp
next
  case (fold nm)
  show ?thesis
  proof (clarify)
    fix k g assume "(k, g) \<in> set m'"
    with fold(3) consider
      "k = toLowerCase (trim nm)"
      "g = (case Map_get m (toLowerCase (trim nm)) of
                Some g \<Rightarrow> g
              | None \<Rightarrow> \<lparr>g_category = ''Stock'', g_code = trim nm, g_name = None,
                         g_sum = Fin 0, g_count = 0\<rparr>)
             \<lparr>g_sum := js_add (sum_of m (toLowerCase (trim nm))) (parsePct (d ''chg_%'')),
              g_count := Suc (count_of m (toLowerCase (trim nm)))\<rparr>"
      | "(k, g) \<in> set m"
      by (auto dest!: Map_set_mem)
    then show "k = toLowerCase (g_code g) \<and> g_category g = ''Stock''"
    proof cases
      case 1
      show ?thesis
      proof (cases "Map_get m (toLowerCase (trim nm))")
        case None
        with 1 show ?thesis by simp
      next
        case (Some g0)
        from Map_get_in [OF Some] assms(2)
        have "toLowerCase (trim nm) = toLowerCase (g_code g0) \<and> g_category g0 = ''Stock''"
          by auto
        with 1 Some show ?thesis by simp
      qed
    next
      case 2
      with assms(2) show ?thesis by auto
    qed
  qed
qed

lemma for_of_stock_code:
  "for_of stock_step m0 rows = Inr m \<Longrightarrow>
   \<forall>(k, g) \<in> set m0. k = toLowerCase (g_code g) \<and> g_category g = ''Stock'' \<Longrightarrow>
   \<forall>(k, g) \<in> set m. k = toLowerCase (g_code g) \<and> g_category g = ''Stock''"
proof (induction rows arbitrary: m0)
  case Nil
  then show ?case by simp
next
  case (Cons d rows)
  then obtain m1 where s: "stock_step m0 d = Inr m1" and r: "for_of stock_step m1 rows = Inr m"
    by (auto split: sum.splits)
  from Cons.IH [OF r] stock_step_code [OF s] Cons.prems(2) show ?case by simp
qed

lemma distinct_map_inner: "distinct (map (\<lambda>x. f (g x)) xs) \<Longrightarrow> distinct (map g xs)"
  by (induction xs) auto

lemma stocks_ids_distinct:
  assumes "stocks rows = Inr st"
  shows "distinct (map a_id st)"
proof -
  from assms obtain m where run: "for_of stock_step [] rows = Inr m"
    and st: "st = map stock_asset (map snd m)"
    by (auto simp: stocks_def stockGroups_def Map_values_def split: sum.splits)
  from for_of_stock_distinct [OF run] have dist: "distinct (map fst m)" by simp
  from for_of_stock_code [OF run]
  have inv: "\<forall>(k, g) \<in> set m. k = toLowerCase (g_code g) \<and> g_category g = ''Stock''" by simp
  then have "map fst m = map (\<lambda>p. toLowerCase (g_code (snd p))) m"
    by (intro map_cong) auto
  with dist have "distinct (map (\<lambda>p. g_code (snd p)) m)"
    by (simp add: distinct_map_inner)
  then have "distinct (map (\<lambda>p. ''Stock|'' @ g_code (snd p)) m)"
    by (simp add: distinct_map inj_on_def)
  moreover from inv have "map a_id st = map (\<lambda>p. ''Stock|'' @ g_code (snd p)) m"
    unfolding st by (auto simp: stock_asset_def Let_def)
  ultimately show ?thesis by simp
qed




lemma Map_set_key_order:
  "map fst (Map_set k v m) = (if k \<in> set (map fst m) then map fst m else map fst m @ [k])"
  by (induction m) (auto simp: Map_set_def)

lemma stock_step_keys:
  assumes "stock_step m d = Inr m'"
  shows "map fst m' =
         (if valid_pct d \<and> key_of d \<notin> set (map fst m) then map fst m @ [key_of d]
          else map fst m)"
  using assms
  by (cases rule: stock_step_cases)
     (auto simp: Map_set_key_order key_of_def label_of_def)

lemma remdups_drop_seen: "k \<in> set ys \<Longrightarrow> remdups (xs @ k # ys) = remdups (xs @ ys)"
  by (induction xs) auto

lemma first_seen_seen: "k \<in> set acc \<Longrightarrow> first_seen (acc @ k # ks) = first_seen (acc @ ks)"
  by (simp add: first_seen_def remdups_drop_seen)

lemma for_of_stock_keys:
  "for_of stock_step m0 rows = Inr m \<Longrightarrow> distinct (map fst m0) \<Longrightarrow>
   map fst m = first_seen (map fst m0 @ map key_of (filter valid_pct rows))"
proof (induction rows arbitrary: m0)
  case Nil
  then show ?case by (simp add: first_seen_def distinct_remdups_id)
next
  case (Cons d rows)
  then obtain m1 where s: "stock_step m0 d = Inr m1" and r: "for_of stock_step m1 rows = Inr m"
    by (auto split: sum.splits)
  from stock_step_distinct [OF s Cons.prems(2)] have d1: "distinct (map fst m1)" .
  note ih = Cons.IH [OF r d1]
  show ?case
  proof (cases "valid_pct d")
    case False
    with ih stock_step_keys [OF s] show ?thesis by simp
  next
    case True
    show ?thesis
    proof (cases "key_of d \<in> set (map fst m0)")
      case seen: True
      with True ih stock_step_keys [OF s] first_seen_seen [OF seen]
      show ?thesis by simp
    next
      case False
      with True ih stock_step_keys [OF s] show ?thesis by simp
    qed
  qed
qed

lemma filter_take_prefix: "\<exists>k. filter P (take n xs) = take k (filter P xs)"
proof (induction xs arbitrary: n)
  case Nil
  then show ?case by simp
next
  case (Cons x xs)
  show ?case
  proof (cases n)
    case 0
    then show ?thesis by (intro exI [of _ 0]) simp
  next
    case (Suc n')
    from Cons.IH [of n'] obtain k where k: "filter P (take n' xs) = take k (filter P xs)" ..
    show ?thesis
    proof (cases "P x")
      case True
      with Suc k show ?thesis by (intro exI [of _ "Suc k"]) simp
    next
      case False
      with Suc k show ?thesis by (intro exI [of _ k]) simp
    qed
  qed
qed

lemma rank_inj: "rank a = rank b \<longleftrightarrow> a = b"
  by (cases a; cases b) simp_all

lemma asc_key_eq: "asc_key d = rank v \<longleftrightarrow> avgPct d = v"
  by (simp add: asc_key_def rank_inj)

lemma desc_key_eq: "desc_key d = (- fst (rank v), - snd (rank v)) \<longleftrightarrow> avgPct d = v"
proof -
  have "desc_key d = (- fst (rank v), - snd (rank v)) \<longleftrightarrow> rank (avgPct d) = rank v"
    by (cases "rank (avgPct d)"; cases "rank v") (auto simp: desc_key_def)
  then show ?thesis by (simp add: rank_inj)
qed

lemma positives_ties:
  assumes "js_less (Fin 0) v"
  shows "\<exists>k. filter (\<lambda>d. avgPct d = v) (positives posN arr)
             = take k (filter (\<lambda>d. avgPct d = v) arr)"
proof -
  let ?s = "sort_key desc_key (filter is_pos arr)"
  from filter_take_prefix [of "\<lambda>d. avgPct d = v" posN ?s] obtain k
    where k: "filter (\<lambda>d. avgPct d = v) (take posN ?s) = take k (filter (\<lambda>d. avgPct d = v) ?s)" ..
  have "filter (\<lambda>d. avgPct d = v) ?s
        = filter (\<lambda>d. desc_key d = (- fst (rank v), - snd (rank v))) ?s"
    by (simp add: desc_key_eq)
  also have "\<dots> = filter (\<lambda>d. desc_key d = (- fst (rank v), - snd (rank v))) (filter is_pos arr)"
    by (rule sort_key_stable)
  also have "\<dots> = filter (\<lambda>d. avgPct d = v) arr"
    using assms by (auto simp: desc_key_eq is_pos_def intro: filter_cong)
  finally show ?thesis using k by (auto simp: positives_sort_key)
qed

lemma negatives_ties:
  assumes "js_less v (Fin 0)"
  shows "\<exists>k. filter (\<lambda>d. avgPct d = v) (negatives negN arr)
             = rev (take k (filter (\<lambda>d. avgPct d = v) arr))"
proof -
  let ?s = "sort_key asc_key (filter is_neg arr)"
  from filter_take_prefix [of "\<lambda>d. avgPct d = v" negN ?s] obtain k
    where k: "filter (\<lambda>d. avgPct d = v) (take negN ?s) = take k (filter (\<lambda>d. avgPct d = v) ?s)" ..
  have "filter (\<lambda>d. avgPct d = v) ?s = filter (\<lambda>d. asc_key d = rank v) ?s"
    by (simp add: asc_key_eq)
  also have "\<dots> = filter (\<lambda>d. asc_key d = rank v) (filter is_neg arr)"
    by (rule sort_key_stable)
  also have "\<dots> = filter (\<lambda>d. avgPct d = v) arr"
    using assms by (auto simp: asc_key_eq is_neg_def intro: filter_cong)
  finally have "filter (\<lambda>d. avgPct d = v) (take negN ?s)
                = take k (filter (\<lambda>d. avgPct d = v) arr)"
    using k by simp
  then have "filter (\<lambda>d. avgPct d = v) (rev (take negN ?s))
             = rev (take k (filter (\<lambda>d. avgPct d = v) arr))"
    by (simp add: rev_filter [symmetric])
  then show ?thesis unfolding negatives_sort_key by (rule exI)
qed

section \<open>Grouping and the leaves of the treemap\<close>

lemma d3_group_fold: "d3_group key values = fold (group_step key) values []"
proof -
  have "group_step key =
        (\<lambda>v m. Map_set (key v) ((case Map_get m (key v) of None \<Rightarrow> [] | Some g \<Rightarrow> g) @ [v]) m)"
    by (intro ext) (simp add: group_step_def)
  then show ?thesis by (simp add: d3_group_def)
qed

lemma group_step_get:
  "Map_get (group_step key x m) k =
     (if key x = k then Some ((case Map_get m k of None \<Rightarrow> [] | Some g \<Rightarrow> g) @ [x])
      else Map_get m k)"
  by (auto simp: group_step_def Map_get_set)

lemma group_fold_get:
  "Map_get (fold (group_step key) xs m) k =
     (case Map_get m k of
        None \<Rightarrow> if filter (\<lambda>x. key x = k) xs = [] then None
                else Some (filter (\<lambda>x. key x = k) xs)
      | Some g \<Rightarrow> Some (g @ filter (\<lambda>x. key x = k) xs))"
proof (induction xs arbitrary: m)
  case Nil
  then show ?case by (simp split: option.splits)
next
  case (Cons x xs)
  show ?case
    by (simp add: Cons.IH group_step_get split: option.splits)
qed

lemma group_fold_distinct:
  "distinct (map fst m) \<Longrightarrow> distinct (map fst (fold (group_step key) xs m))"
  by (induction xs arbitrary: m) (simp_all add: group_step_def Map_set_keys_distinct)

lemma d3_group_get:
  "Map_get (d3_group key xs) k =
     (if filter (\<lambda>x. key x = k) xs = [] then None else Some (filter (\<lambda>x. key x = k) xs))"
  using group_fold_get [of key xs "[]" k] by (simp add: d3_group_fold Map_get_def)

lemma d3_group_distinct: "distinct (map fst (d3_group key xs))"
  by (simp add: d3_group_fold group_fold_distinct)

lemma d3_group_mem:
  "(k, g) \<in> set (d3_group key xs) \<longleftrightarrow> g = filter (\<lambda>x. key x = k) xs \<and> g \<noteq> []"
proof
  assume "(k, g) \<in> set (d3_group key xs)"
  from Map_in_get [OF d3_group_distinct this] show "g = filter (\<lambda>x. key x = k) xs \<and> g \<noteq> []"
    by (auto simp: d3_group_get split: if_splits)
next
  assume "g = filter (\<lambda>x. key x = k) xs \<and> g \<noteq> []"
  then have "Map_get (d3_group key xs) k = Some g" by (auto simp: d3_group_get)
  then show "(k, g) \<in> set (d3_group key xs)" by (rule Map_get_in)
qed

lemma d3_rollup_get:
  "Map_get (d3_rollup reduce key xs) k =
     (if filter (\<lambda>x. key x = k) xs = [] then None
      else Some (reduce (filter (\<lambda>x. key x = k) xs)))"
proof -
  have "Map_get (d3_rollup reduce key xs) k = map_option reduce (Map_get (d3_group key xs) k)"
    by (simp add: d3_rollup_def Map_get_def map_of_map)
  then show ?thesis by (simp add: d3_group_get)
qed

lemma d3_rollup_keys: "map fst (d3_rollup reduce key xs) = map fst (d3_group key xs)"
  by (simp add: d3_rollup_def split_def comp_def)

lemma d3_rollup_mem:
  "(k, v) \<in> set (d3_rollup reduce key xs) \<longleftrightarrow>
   v = reduce (filter (\<lambda>x. key x = k) xs) \<and> filter (\<lambda>x. key x = k) xs \<noteq> []"
  by (auto simp: d3_rollup_def d3_group_mem)

lemma stockChildrenRaw_mem:
  "c \<in> set (stockChildrenRaw companyRows stockRows) \<longleftrightarrow>
   (\<exists>sector. sector_rows companyRows stockRows sector \<noteq> []
      \<and> c = stock_leaf sector (sector_reduce (sector_rows companyRows stockRows sector))
      \<and> js_less (Fin 0) (rawValue c))"
proof -
  have "c \<in> set (stockChildrenRaw companyRows stockRows) \<longleftrightarrow>
        js_less (Fin 0) (rawValue c)
        \<and> (\<exists>p \<in> set (sectorAgg companyRows stockRows). c = stock_leaf (fst p) (snd p))"
    by (auto simp: stockChildrenRaw_def stock_leaf_def split_def)
  also have "(\<exists>p \<in> set (sectorAgg companyRows stockRows). c = stock_leaf (fst p) (snd p)) \<longleftrightarrow>
        (\<exists>sector stats. (sector, stats) \<in> set (sectorAgg companyRows stockRows)
            \<and> c = stock_leaf sector stats)"
    by force
  also have "\<dots> \<longleftrightarrow> (\<exists>sector. sector_rows companyRows stockRows sector \<noteq> []
      \<and> c = stock_leaf sector (sector_reduce (sector_rows companyRows stockRows sector)))"
    by (auto simp: sectorAgg_def d3_rollup_mem sector_rows_def)
  finally show ?thesis by blast
qed

lemma stockChildren_mem:
  "c \<in> set (stockChildren companyRows stockRows) \<longleftrightarrow>
   (\<exists>d \<in> set (stockChildrenRaw companyRows stockRows).
      c = leaf_raw.extend d \<lparr>l_value = js_div (rawValue d) (stockTotal companyRows stockRows)\<rparr>)"
  by (auto simp: stockChildren_def)

lemma extend_fields:
  "l_name (leaf_raw.extend d \<lparr>l_value = v\<rparr>) = l_name d"
  "l_symbol (leaf_raw.extend d \<lparr>l_value = v\<rparr>) = l_symbol d"
  "l_type (leaf_raw.extend d \<lparr>l_value = v\<rparr>) = l_type d"
  "rawValue (leaf_raw.extend d \<lparr>l_value = v\<rparr>) = rawValue d"
  "avgChange (leaf_raw.extend d \<lparr>l_value = v\<rparr>) = avgChange d"
  "l_count (leaf_raw.extend d \<lparr>l_value = v\<rparr>) = l_count d"
  "l_value (leaf_raw.extend d \<lparr>l_value = v\<rparr>) = v"
  by (simp_all add: leaf_raw.defs)






lemma sectorByTicker_fold_get:
  "Map_get (fold (\<lambda>d m. Map_set (d ''ticker'') (or_string (d ''sector'') ''Unknown'') m) cs m0) t =
     (case find (\<lambda>c. c ''ticker'' = t) (rev cs) of
        None \<Rightarrow> Map_get m0 t
      | Some c \<Rightarrow> Some (or_string (c ''sector'') ''Unknown''))"
  by (induction cs rule: rev_induct) (simp_all add: Map_get_set)

lemma sectorByTicker_get:
  "Map_get (sectorByTicker companyRows) t =
     map_option (\<lambda>c. or_string (c ''sector'') ''Unknown'')
       (find (\<lambda>c. c ''ticker'' = t) (rev companyRows))"
  using sectorByTicker_fold_get [of companyRows "[]" t]
  by (simp add: sectorByTicker_def Map_get_def split: option.splits)

lemma sector_key_unknown:
  assumes "case find (\<lambda>c. c ''ticker'' = r ''symbol'') (rev companyRows) of
             None \<Rightarrow> True
           | Some c \<Rightarrow> c ''sector'' = None \<or> c ''sector'' = Some []"
  shows "sector_key companyRows r = ''Unknown''"
  using assms
  by (auto simp: sector_key_def sectorByTicker_get or_string_def split: option.splits)

lemma sector_reduce_count: "s_count (sector_reduce rows) = length rows"
  by (simp add: sector_reduce_def)

lemma sectorAgg_get:
  "Map_get (sectorAgg companyRows stockRows) sector =
     (if sector_rows companyRows stockRows sector = [] then None
      else Some (sector_reduce (sector_rows companyRows stockRows sector)))"
  by (simp add: sectorAgg_def d3_rollup_get sector_rows_def)

lemma stockChildren_values:
  assumes "c \<in> set (stockChildren companyRows stockRows)"
  shows "js_less (Fin 0) (rawValue c)"
    and "l_value c = js_div (rawValue c) (stockTotal companyRows stockRows)"
    and "\<exists>sector. l_name c = Some sector
           \<and> sector_rows companyRows stockRows sector \<noteq> []
           \<and> l_count c = length (sector_rows companyRows stockRows sector)"
proof -
  from assms obtain d where d: "d \<in> set (stockChildrenRaw companyRows stockRows)"
    and c: "c = leaf_raw.extend d
                  \<lparr>l_value = js_div (rawValue d) (stockTotal companyRows stockRows)\<rparr>"
    by (auto simp: stockChildren_mem)
  from d obtain sector where s: "sector_rows companyRows stockRows sector \<noteq> []"
    "d = stock_leaf sector (sector_reduce (sector_rows companyRows stockRows sector))"
    "js_less (Fin 0) (rawValue d)"
    by (auto simp: stockChildrenRaw_mem)
  from c s(3) show "js_less (Fin 0) (rawValue c)" by (simp add: extend_fields)
  from c show "l_value c = js_div (rawValue c) (stockTotal companyRows stockRows)"
    by (simp add: extend_fields)
  from c s(1,2) show "\<exists>sector. l_name c = Some sector
           \<and> sector_rows companyRows stockRows sector \<noteq> []
           \<and> l_count c = length (sector_rows companyRows stockRows sector)"
    by (auto simp: extend_fields stock_leaf_def sector_reduce_count)
qed




lemma rollup_err_total:
  "\<forall>(k, g) \<in> set m. g \<noteq> [] \<Longrightarrow>
   \<exists>agg. rollup_err crypto_reduce m = Inr agg \<and> map fst agg = map fst m"
proof (induction m)
  case Nil
  then show ?case by simp
next
  case (Cons p m)
  obtain k g where p: "p = (k, g)" by (cases p)
  with Cons.prems obtain first rest where g: "g = first # rest" by (cases g) auto
  from Cons.prems have "\<forall>(k, g) \<in> set m. g \<noteq> []" by simp
  from Cons.IH [OF this] obtain agg where "rollup_err crypto_reduce m = Inr agg"
    "map fst agg = map fst m" by blast
  moreover from g obtain v where "crypto_reduce g = Inr v" by (simp add: crypto_reduce_def)
  ultimately show ?case using p by simp
qed

lemma cryptoAgg_total:
  "\<exists>agg. cryptoAgg cryptoRows = Inr agg
         \<and> map fst agg = map fst (d3_group (\<lambda>r. r ''symbol'') cryptoRows)"
proof -
  have "\<forall>(k, g) \<in> set (d3_group (\<lambda>r. r ''symbol'') cryptoRows). g \<noteq> []"
    by (auto simp: d3_group_mem)
  from rollup_err_total [OF this] show ?thesis by (simp add: cryptoAgg_def)
qed

lemma cryptoChildrenRaw_pos: "\<forall>c \<in> set (cryptoChildrenRaw agg). js_less (Fin 0) (rawValue c)"
  by (simp add: cryptoChildrenRaw_def)

lemma cryptoChildrenRaw_count:
  "c \<in> set (cryptoChildrenRaw agg) \<Longrightarrow> l_count c = 1 \<and> l_symbol c \<in> set (map fst agg)"
  by (force simp: cryptoChildrenRaw_def)


lemma crypto_leaves_values:
  assumes "c \<in> set (crypto_leaves agg)"
  shows "js_less (Fin 0) (rawValue c)"
    and "l_value c = js_div (rawValue c) (cryptoTotal agg)"
    and "l_count c = 1" and "l_symbol c \<in> set (map fst agg)"
proof -
  from assms obtain d where d: "d \<in> set (cryptoChildrenRaw agg)"
    and c: "c = leaf_raw.extend d \<lparr>l_value = js_div (rawValue d) (cryptoTotal agg)\<rparr>"
    by (auto simp: crypto_leaves_def)
  from d cryptoChildrenRaw_pos have "js_less (Fin 0) (rawValue d)" by blast
  with c show "js_less (Fin 0) (rawValue c)" by (simp add: extend_fields)
  from c show "l_value c = js_div (rawValue c) (cryptoTotal agg)" by (simp add: extend_fields)
  from c cryptoChildrenRaw_count [OF d] show "l_count c = 1" "l_symbol c \<in> set (map fst agg)"
    by (simp_all add: extend_fields)
qed


lemma cryptoChildren_leaves:
  "cryptoAgg cryptoRows = Inr agg \<Longrightarrow> cryptoChildren cryptoRows = Inr (crypto_leaves agg)"
  by (simp add: cryptoChildren_def crypto_leaves_def)



section \<open>The aggregation of the crypto rows\<close>

lemma crypto_step_skip: "\<not> valid_pct24 d \<Longrightarrow> crypto_step m d = Inr m"
  by (simp add: crypto_step_def valid_pct24_def)

lemma crypto_step_throw: "valid_pct24 d \<Longrightarrow> d ''symbol'' = None \<Longrightarrow> crypto_step m d = Inl TypeError"
  by (simp add: crypto_step_def valid_pct24_def)

lemma crypto_step_fold:
  "valid_pct24 d \<Longrightarrow> d ''symbol'' = Some sy \<Longrightarrow>
   crypto_step m d =
     Inr (Map_set (toLowerCase (trim sy))
            ((case Map_get m (toLowerCase (trim sy)) of
                Some g \<Rightarrow> g
              | None \<Rightarrow> \<lparr>g_category = ''Crypto'', g_code = trim sy, g_name = d ''name'',
                         g_sum = Fin 0, g_count = 0\<rparr>)
             \<lparr>g_sum := js_add (sum_of m (toLowerCase (trim sy))) (parsePct (d ''chg_24h'')),
              g_count := Suc (count_of m (toLowerCase (trim sy)))\<rparr>) m)"
  by (simp add: crypto_step_def valid_pct24_def Let_def count_of_def sum_of_def
           split: option.splits)

lemma crypto_step_cases:
  assumes "crypto_step m d = Inr m'"
  obtains (skip) "\<not> valid_pct24 d" "m' = m"
  | (fold) nm where "valid_pct24 d" "d ''symbol'' = Some nm"
      "m' = Map_set (toLowerCase (trim nm))
            ((case Map_get m (toLowerCase (trim nm)) of
                Some g \<Rightarrow> g
              | None \<Rightarrow> \<lparr>g_category = ''Crypto'', g_code = trim nm, g_name = d ''name'',
                         g_sum = Fin 0, g_count = 0\<rparr>)
             \<lparr>g_sum := js_add (sum_of m (toLowerCase (trim nm))) (parsePct (d ''chg_24h'')),
              g_count := Suc (count_of m (toLowerCase (trim nm)))\<rparr>) m"
proof (cases "valid_pct24 d")
  case False
  with assms skip show ?thesis by (simp add: crypto_step_skip)
next
  case True
  show ?thesis
  proof (cases "d ''symbol''")
    case None
    with True assms show ?thesis by (simp add: crypto_step_throw)
  next
    case (Some nm)
    with True assms fold [of nm] show ?thesis by (simp add: crypto_step_fold)
  qed
qed

lemma crypto_step_distinct:
  assumes "crypto_step m d = Inr m'" "distinct (map fst m)"
  shows "distinct (map fst m')"
  using assms by (cases rule: crypto_step_cases) (simp_all add: Map_set_keys_distinct)

lemma for_of_crypto_distinct:
  "for_of crypto_step m0 rows = Inr m \<Longrightarrow> distinct (map fst m0) \<Longrightarrow> distinct (map fst m)"
proof (induction rows arbitrary: m0)
  case Nil
  then show ?case by simp
next
  case (Cons d rows)
  then obtain m1 where s: "crypto_step m0 d = Inr m1" and r: "for_of crypto_step m1 rows = Inr m"
    by (auto split: sum.splits)
  from Cons.IH [OF r] crypto_step_distinct [OF s] Cons.prems(2) show ?case by simp
qed

lemma crypto_step_code:
  assumes "crypto_step m d = Inr m'"
    and "\<forall>(k, g) \<in> set m. k = toLowerCase (g_code g) \<and> g_category g = ''Crypto''"
  shows "\<forall>(k, g) \<in> set m'. k = toLowerCase (g_code g) \<and> g_category g = ''Crypto''"
  using assms
proof (cases rule: crypto_step_cases)
  case skip
  with assms show ?thesis by simp
next
  case (fold nm)
  show ?thesis
  proof (clarify)
    fix k g assume "(k, g) \<in> set m'"
    with fold(3) consider
      "k = toLowerCase (trim nm)"
      "g = (case Map_get m (toLowerCase (trim nm)) of
                Some g \<Rightarrow> g
              | None \<Rightarrow> \<lparr>g_category = ''Crypto'', g_code = trim nm, g_name = d ''name'',
                         g_sum = Fin 0, g_count = 0\<rparr>)
             \<lparr>g_sum := js_add (sum_of m (toLowerCase (trim nm))) (parsePct (d ''chg_24h'')),
              g_count := Suc (count_of m (toLowerCase (trim nm)))\<rparr>"
      | "(k, g) \<in> set m"
      by (auto dest!: Map_set_mem)
    then show "k = toLowerCase (g_code g) \<and> g_category g = ''Crypto''"
    proof cases
      case 1
      show ?thesis
      proof (cases "Map_get m (toLowerCase (trim nm))")
        case None
        with 1 show ?thesis by simp
      next
        case (Some g0)
        from Map_get_in [OF Some] assms(2)
        have "toLowerCase (trim nm) = toLowerCase (g_code g0) \<and> g_category g0 = ''Crypto''"
          by auto
        with 1 Some show ?thesis by simp
      qed
    next
      case 2
      with assms(2) show ?thesis by auto
    qed
  qed
qed

lemma for_of_crypto_code:
  "for_of crypto_step m0 rows = Inr m \<Longrightarrow>
   \<forall>(k, g) \<in> set m0. k = toLowerCase (g_code g) \<and> g_category g = ''Crypto'' \<Longrightarrow>
   \<forall>(k, g) \<in> set m. k = toLowerCase (g_code g) \<and> g_category g = ''Crypto''"
proof (induction rows arbitrary: m0)
  case Nil
  then show ?case by simp
next
  case (Cons d rows)
  then obtain m1 where s: "crypto_step m0 d = Inr m1" and r: "for_of crypto_step m1 rows = Inr m"
    by (auto split: sum.splits)
  from Cons.IH [OF r] crypto_step_code [OF s] Cons.prems(2) show ?case by simp
qed

lemma cryptos_ids_distinct:
  assumes "cryptos rows = Inr st"
  shows "distinct (map a_id st)"
proof -
  from assms obtain m where run: "for_of crypto_step [] rows = Inr m"
    and st: "st = map crypto_asset (map snd m)"
    by (auto simp: cryptos_def cryptoGroups_def Map_values_def split: sum.splits)
  from for_of_crypto_distinct [OF run] have dist: "distinct (map fst m)" by simp
  from for_of_crypto_code [OF run]
  have inv: "\<forall>(k, g) \<in> set m. k = toLowerCase (g_code g) \<and> g_category g = ''Crypto''" by simp
  then have "map fst m = map (\<lambda>p. toLowerCase (g_code (snd p))) m"
    by (intro map_cong) auto
  with dist have "distinct (map (\<lambda>p. g_code (snd p)) m)"
    by (simp add: distinct_map_inner)
  then have "distinct (map (\<lambda>p. ''Crypto|'' @ g_code (snd p)) m)"
    by (simp add: distinct_map inj_on_def)
  moreover from inv have "map a_id st = map (\<lambda>p. ''Crypto|'' @ g_code (snd p)) m"
    unfolding st by (auto simp: crypto_asset_def Let_def)
  ultimately show ?thesis by simp
qed

lemma crypto_step_frame:
  assumes "crypto_step m d = Inr m'" "crypto_key d \<noteq> Some k"
  shows "Map_get m' k = Map_get m k"
  using assms by (cases rule: crypto_step_cases) (auto simp: Map_get_set crypto_key_def)

lemma crypto_step_get:
  assumes "crypto_step m d = Inr m'"
  shows "Map_get m' k =
         (if in_group24 k d
          then Some (accumulate (pct24_of d)
                       (case Map_get m k of None \<Rightarrow> fresh_crypto d | Some g \<Rightarrow> g))
          else Map_get m k)"
  using assms
  by (cases rule: crypto_step_cases)
     (auto simp: Map_get_set in_group24_def crypto_key_def pct24_of_def
                 fresh_crypto_def accumulate_def sum_of_def count_of_def split: option.splits)

lemma for_of_crypto_get:
  "for_of crypto_step m0 rows = Inr m \<Longrightarrow>
   Map_get m k = fold_group24 (Map_get m0 k) (filter (in_group24 k) rows)"
proof (induction rows arbitrary: m0)
  case Nil
  then show ?case by simp
next
  case (Cons d rows)
  then obtain m1 where s: "crypto_step m0 d = Inr m1" and r: "for_of crypto_step m1 rows = Inr m"
    by (auto split: sum.splits)
  from Cons.IH [OF r] crypto_step_get [OF s, of k] show ?case by simp
qed

lemma for_of_crypto_ok:
  "(\<exists>m. for_of crypto_step m0 rows = Inr m) \<longleftrightarrow>
   (\<forall>d \<in> set rows. valid_pct24 d \<longrightarrow> d ''symbol'' \<noteq> None)"
proof (induction rows arbitrary: m0)
  case Nil
  then show ?case by simp
next
  case (Cons d rows)
  show ?case
  proof (cases "valid_pct24 d")
    case False
    with Cons.IH [of m0] show ?thesis by (simp add: crypto_step_skip)
  next
    case True
    show ?thesis
    proof (cases "d ''symbol''")
      case None
      with True show ?thesis by (auto simp: crypto_step_throw)
    next
      case (Some sy)
      from crypto_step_fold [OF True Some, of m0] obtain m1 where "crypto_step m0 d = Inr m1"
        by blast
      with Cons.IH [of m1] True Some show ?thesis by simp
    qed
  qed
qed

lemma cryptoGroups_frame:
  assumes "cryptoGroups (xs @ d # ys) = Inr m"
  shows "\<exists>m'. cryptoGroups (xs @ ys) = Inr m'
            \<and> (\<forall>k. \<not> in_group24 k d \<longrightarrow> Map_get m k = Map_get m' k)"
proof -
  from assms have run: "for_of crypto_step [] (xs @ d # ys) = Inr m"
    by (simp add: cryptoGroups_def)
  then have "\<exists>m. for_of crypto_step [] (xs @ d # ys) = Inr m" ..
  then have "\<forall>r \<in> set (xs @ ys). valid_pct24 r \<longrightarrow> r ''symbol'' \<noteq> None"
    unfolding for_of_crypto_ok by simp
  then have "\<exists>m'. for_of crypto_step [] (xs @ ys) = Inr m'"
    unfolding for_of_crypto_ok .
  then obtain m' where run': "for_of crypto_step [] (xs @ ys) = Inr m'" ..
  have "Map_get m k = Map_get m' k" if "\<not> in_group24 k d" for k
    using that for_of_crypto_get [OF run, of k] for_of_crypto_get [OF run', of k] by simp
  with run' show ?thesis by (auto simp: cryptoGroups_def)
qed

section \<open>Rows without an identifier\<close>

lemma toLowerCase_Nil: "toLowerCase [] = []"
  by (simp add: toLowerCase_def)

text \<open>
  C5, as amended. The loops have no test on the identifier. A row whose name (for
  crypto: symbol) is missing or empty after trimming is skipped without an exception
  when its percent value parses to \<open>NaN\<close>, because that test comes first. When the
  value parses and the identifier is present but empty after trimming, no exception is
  raised and the row is folded into the group whose key is the empty string; the other
  groups are unchanged.
\<close>

theorem blank_identifier_rows:
  "((d ''name'' = None \<or> (\<exists>nm. d ''name'' = Some nm \<and> trim nm = [])) \<longrightarrow>
      (\<not> valid_pct d \<longrightarrow> stock_step m d = Inr m)
    \<and> (valid_pct d \<and> d ''name'' \<noteq> None \<longrightarrow>
         (\<exists>m'. stock_step m d = Inr m'
            \<and> count_of m' [] = Suc (count_of m [])
            \<and> sum_of m' [] = js_add (sum_of m []) (pct_of d)
            \<and> (\<forall>k. k \<noteq> [] \<longrightarrow> Map_get m' k = Map_get m k))))
 \<and> ((d ''symbol'' = None \<or> (\<exists>sy. d ''symbol'' = Some sy \<and> trim sy = [])) \<longrightarrow>
      (\<not> valid_pct24 d \<longrightarrow> crypto_step c d = Inr c)
    \<and> (valid_pct24 d \<and> d ''symbol'' \<noteq> None \<longrightarrow>
         (\<exists>c'. crypto_step c d = Inr c'
            \<and> count_of c' [] = Suc (count_of c [])
            \<and> sum_of c' [] = js_add (sum_of c []) (parsePct (d ''chg_24h''))
            \<and> (\<forall>k. k \<noteq> [] \<longrightarrow> Map_get c' k = Map_get c k))))"
proof (intro conjI impI)
  assume "\<not> valid_pct d"
  then show "stock_step m d = Inr m" by (rule stock_step_skip)
next
  assume blank: "d ''name'' = None \<or> (\<exists>nm. d ''name'' = Some nm \<and> trim nm = [])"
    and v: "valid_pct d \<and> d ''name'' \<noteq> None"
  then obtain nm where nm: "d ''name'' = Some nm" "trim nm = []" by auto
  from v have vp: "valid_pct d" ..
  show "\<exists>m'. stock_step m d = Inr m'
            \<and> count_of m' [] = Suc (count_of m [])
            \<and> sum_of m' [] = js_add (sum_of m []) (pct_of d)
            \<and> (\<forall>k. k \<noteq> [] \<longrightarrow> Map_get m' k = Map_get m k)"
    using stock_step_fold [OF vp nm(1), of m] nm(2)
    by (simp add: toLowerCase_Nil count_of_def sum_of_def Map_get_set pct_of_def)
next
  assume "\<not> valid_pct24 d"
  then show "crypto_step c d = Inr c" by (rule crypto_step_skip)
next
  assume blank: "d ''symbol'' = None \<or> (\<exists>sy. d ''symbol'' = Some sy \<and> trim sy = [])"
    and v: "valid_pct24 d \<and> d ''symbol'' \<noteq> None"
  then obtain sy where sy: "d ''symbol'' = Some sy" "trim sy = []" by auto
  from v have vp: "valid_pct24 d" ..
  show "\<exists>c'. crypto_step c d = Inr c'
            \<and> count_of c' [] = Suc (count_of c [])
            \<and> sum_of c' [] = js_add (sum_of c []) (parsePct (d ''chg_24h''))
            \<and> (\<forall>k. k \<noteq> [] \<longrightarrow> Map_get c' k = Map_get c k)"
    using crypto_step_fold [OF vp sy(1), of c] sy(2)
    by (simp add: toLowerCase_Nil count_of_def sum_of_def Map_get_set)
qed

theorem blank_identifier_rows_witness:
  "([''name'' \<mapsto> ''  '', ''chg_%'' \<mapsto> ''1.5''] ''name'' = Some ''  '' \<and> trim ''  '' = []
    \<and> valid_pct [''name'' \<mapsto> ''  '', ''chg_%'' \<mapsto> ''1.5''])
   \<and> (\<exists>m'. stock_step [] [''name'' \<mapsto> ''  '', ''chg_%'' \<mapsto> ''1.5''] = Inr m'
          \<and> count_of m' [] = Suc (count_of [] []))"
proof -
  let ?d = "[''name'' \<mapsto> ''  '', ''chg_%'' \<mapsto> ''1.5'']"
  have n: "?d ''name'' = Some ''  ''" by simp
  have t: "trim ''  '' = []" by code_simp
  have v: "valid_pct ?d" by code_simp
  from n t have h: "?d ''name'' = None \<or> (\<exists>nm. ?d ''name'' = Some nm \<and> trim nm = [])"
    by blast
  from n v have h2: "valid_pct ?d \<and> ?d ''name'' \<noteq> None" by simp
  from blank_identifier_rows [of ?d "[]", THEN conjunct1, rule_format, OF h, THEN conjunct2,
      rule_format, OF h2]
  have "\<exists>m'. stock_step [] ?d = Inr m' \<and> count_of m' [] = Suc (count_of [] [])"
    by blast
  with n t v show ?thesis by blast
qed

theorem blank_identifier_counterexample:
  "stock_step [] [''name'' \<mapsto> ''  '', ''chg_%'' \<mapsto> ''1.5''] =
     Inr [([], \<lparr>g_category = ''Stock'', g_code = [], g_name = None,
               g_sum = Fin (3 / 2), g_count = 1\<rparr>)]
   \<and> stocks [[''name'' \<mapsto> ''  '', ''chg_%'' \<mapsto> ''1.5'']] =
     Inr [\<lparr>a_id = ''Stock|'', a_category = ''Stock'', a_code = [], a_name = None,
           avgPct = Fin (3 / 2), absAvgPct = Fin (3 / 2), a_count = 1\<rparr>]
   \<and> stock_step [] [''chg_%'' \<mapsto> ''1.5''] = Inl TypeError
   \<and> stocks [[''chg_%'' \<mapsto> ''1.5'']] = Inl TypeError"
  by code_simp

section \<open>Rows without a value\<close>

lemma d3_sum_skip:
  assumes "\<not> truthy (f d)"
  shows "d3_sum f (xs @ d # ys) = d3_sum f (xs @ ys)"
  using assms by (simp add: d3_sum_def Let_def)

lemma js_or_NaN: "isNaN v \<Longrightarrow> js_or v (Fin 0) = Fin 0"
  by (cases v) (simp_all add: js_or_def)

text \<open>
  C6, as amended. A row whose percent value parses to \<open>NaN\<close> (missing, empty or
  without a numeric prefix) is skipped by both loops without an exception, and the
  groups and the aggregates are those of the same rows without it. The test is
  \<open>isNaN\<close>: a stock row whose value parses to any number, an infinity included, and
  that has a name is folded into its group. Whatever the value of a row, a step of
  either loop leaves the entries of all other keys as they are, and when a run succeeds,
  the run on the same rows without that row succeeds too and gives the same entry
  (label, sum and count, hence mean) for every group the row is not folded into. In the
  treemap a row whose volume is not a number adds nothing to the total of its sector but
  is still counted in it, and the aggregate of every other sector is that of the same
  rows without the row.
\<close>

theorem nan_row_skipped:
  "(isNaN (pct_of d) \<longrightarrow>
      stock_step m d = Inr m
    \<and> stockGroups (xs @ d # ys) = stockGroups (xs @ ys)
    \<and> stocks (xs @ d # ys) = stocks (xs @ ys))
 \<and> (\<not> isNaN (pct_of d) \<and> d ''name'' = Some nm \<longrightarrow>
      (\<exists>m'. stock_step m d = Inr m'
         \<and> count_of m' (toLowerCase (trim nm)) = Suc (count_of m (toLowerCase (trim nm)))
         \<and> sum_of m' (toLowerCase (trim nm))
             = js_add (sum_of m (toLowerCase (trim nm))) (pct_of d)))
 \<and> (isNaN (parsePct (d ''chg_24h'')) \<longrightarrow>
      crypto_step c d = Inr c
    \<and> cryptos (xs @ d # ys) = cryptos (xs @ ys))
 \<and> (isNaN (toNumber (d ''vol_'')) \<longrightarrow>
      totalLiquidity (sector_reduce (xs @ d # ys)) = totalLiquidity (sector_reduce (xs @ ys))
    \<and> s_count (sector_reduce (xs @ d # ys)) = Suc (s_count (sector_reduce (xs @ ys))))
 \<and> (\<forall>sector. sector \<noteq> sector_key companyRows d \<longrightarrow>
      Map_get (sectorAgg companyRows (xs @ d # ys)) sector
        = Map_get (sectorAgg companyRows (xs @ ys)) sector)
 \<and> (stock_step m d = Inr m1 \<longrightarrow>
      (\<forall>k. stock_key d \<noteq> Some k \<longrightarrow> Map_get m1 k = Map_get m k))
 \<and> (stockGroups (xs @ d # ys) = Inr g1 \<longrightarrow>
      (\<exists>g2. stockGroups (xs @ ys) = Inr g2
         \<and> (\<forall>k. \<not> in_group k d \<longrightarrow> Map_get g1 k = Map_get g2 k)))
 \<and> (crypto_step c d = Inr c1 \<longrightarrow>
      (\<forall>k. crypto_key d \<noteq> Some k \<longrightarrow> Map_get c1 k = Map_get c k))
 \<and> (cryptoGroups (xs @ d # ys) = Inr h1 \<longrightarrow>
      (\<exists>h2. cryptoGroups (xs @ ys) = Inr h2
         \<and> (\<forall>k. \<not> in_group24 k d \<longrightarrow> Map_get h1 k = Map_get h2 k)))"
proof (intro conjI impI allI)
  assume "isNaN (pct_of d)"
  then have nv: "\<not> valid_pct d" by (simp add: valid_pct_def pct_of_def)
  then show "stock_step m d = Inr m" by (rule stock_step_skip)
  from nv have st: "stock_step m' d = Inr m'" for m' by (rule stock_step_skip)
  then show g: "stockGroups (xs @ d # ys) = stockGroups (xs @ ys)"
    by (simp add: stockGroups_def for_of_append split: sum.splits)
  then show "stocks (xs @ d # ys) = stocks (xs @ ys)" by (simp add: stocks_def)
next
  assume "\<not> isNaN (pct_of d) \<and> d ''name'' = Some nm"
  then have v: "valid_pct d" and n: "d ''name'' = Some nm"
    by (simp_all add: valid_pct_def pct_of_def)
  show "\<exists>m'. stock_step m d = Inr m'
         \<and> count_of m' (toLowerCase (trim nm)) = Suc (count_of m (toLowerCase (trim nm)))
         \<and> sum_of m' (toLowerCase (trim nm))
             = js_add (sum_of m (toLowerCase (trim nm))) (pct_of d)"
    using stock_step_fold [OF v n, of m]
    by (simp add: count_of_def sum_of_def Map_get_set pct_of_def)
next
  assume "isNaN (parsePct (d ''chg_24h''))"
  then have nv: "\<not> valid_pct24 d" by (simp add: valid_pct24_def)
  then show "crypto_step c d = Inr c" by (rule crypto_step_skip)
  from nv have st: "crypto_step c' d = Inr c'" for c' by (rule crypto_step_skip)
  then have "cryptoGroups (xs @ d # ys) = cryptoGroups (xs @ ys)"
    by (simp add: cryptoGroups_def for_of_append split: sum.splits)
  then show "cryptos (xs @ d # ys) = cryptos (xs @ ys)" by (simp add: cryptos_def)
next
  assume "isNaN (toNumber (d ''vol_''))"
  then have "\<not> truthy (js_or (toNumber (d ''vol_'')) (Fin 0))" by (simp add: js_or_NaN)
  from d3_sum_skip [where f = "\<lambda>r. js_or (toNumber (r ''vol_'')) (Fin 0)" and d = d
      and xs = xs and ys = ys, OF this]
  show "totalLiquidity (sector_reduce (xs @ d # ys)) = totalLiquidity (sector_reduce (xs @ ys))"
    by (simp add: sector_reduce_def)
next
  show "s_count (sector_reduce (xs @ d # ys)) = Suc (s_count (sector_reduce (xs @ ys)))"
    by (simp add: sector_reduce_def)
next
  fix sector assume "sector \<noteq> sector_key companyRows d"
  then have "sector_rows companyRows (xs @ d # ys) sector = sector_rows companyRows (xs @ ys) sector"
    by (auto simp: sector_rows_def)
  then show "Map_get (sectorAgg companyRows (xs @ d # ys)) sector
        = Map_get (sectorAgg companyRows (xs @ ys)) sector"
    by (simp add: sectorAgg_get)
next
  fix k assume "stock_step m d = Inr m1" "stock_key d \<noteq> Some k"
  then show "Map_get m1 k = Map_get m k" by (rule stock_step_frame)
next
  assume "stockGroups (xs @ d # ys) = Inr g1"
  then show "\<exists>g2. stockGroups (xs @ ys) = Inr g2
         \<and> (\<forall>k. \<not> in_group k d \<longrightarrow> Map_get g1 k = Map_get g2 k)"
    by (rule stockGroups_frame)
next
  fix k assume "crypto_step c d = Inr c1" "crypto_key d \<noteq> Some k"
  then show "Map_get c1 k = Map_get c k" by (rule crypto_step_frame)
next
  assume "cryptoGroups (xs @ d # ys) = Inr h1"
  then show "\<exists>h2. cryptoGroups (xs @ ys) = Inr h2
         \<and> (\<forall>k. \<not> in_group24 k d \<longrightarrow> Map_get h1 k = Map_get h2 k)"
    by (rule cryptoGroups_frame)
qed

theorem nan_row_skipped_witness:
  "isNaN (pct_of [''name'' \<mapsto> ''B'', ''chg_%'' \<mapsto> ''n/a''])
   \<and> stocks ([[''name'' \<mapsto> ''A'', ''chg_%'' \<mapsto> ''1'']]
             @ [''name'' \<mapsto> ''B'', ''chg_%'' \<mapsto> ''n/a'']
             # [[''name'' \<mapsto> ''B'', ''chg_%'' \<mapsto> ''2'']])
     = stocks ([[''name'' \<mapsto> ''A'', ''chg_%'' \<mapsto> ''1'']]
               @ [[''name'' \<mapsto> ''B'', ''chg_%'' \<mapsto> ''2'']])"
proof -
  have n: "isNaN (pct_of [''name'' \<mapsto> ''B'', ''chg_%'' \<mapsto> ''n/a''])" by code_simp
  from nan_row_skipped [where d = "[''name'' \<mapsto> ''B'', ''chg_%'' \<mapsto> ''n/a'']"
      and xs = "[[''name'' \<mapsto> ''A'', ''chg_%'' \<mapsto> ''1'']]"
      and ys = "[[''name'' \<mapsto> ''B'', ''chg_%'' \<mapsto> ''2'']]", THEN conjunct1, rule_format, OF n,
      THEN conjunct2, THEN conjunct2]
  have "stocks ([[''name'' \<mapsto> ''A'', ''chg_%'' \<mapsto> ''1'']]
             @ [''name'' \<mapsto> ''B'', ''chg_%'' \<mapsto> ''n/a'']
             # [[''name'' \<mapsto> ''B'', ''chg_%'' \<mapsto> ''2'']])
     = stocks ([[''name'' \<mapsto> ''A'', ''chg_%'' \<mapsto> ''1'']]
               @ [[''name'' \<mapsto> ''B'', ''chg_%'' \<mapsto> ''2'']])"
    .
  with n show ?thesis by (rule conjI)
qed

theorem infinite_value_counterexample:
  "\<not> isFinite (pct_of [''name'' \<mapsto> ''A'', ''chg_%'' \<mapsto> ''Infinity''])
   \<and> stockGroups [[''name'' \<mapsto> ''A'', ''chg_%'' \<mapsto> ''1''],
                   [''name'' \<mapsto> ''A'', ''chg_%'' \<mapsto> ''Infinity'']] =
       Inr [(''a'', \<lparr>g_category = ''Stock'', g_code = ''A'', g_name = None,
                     g_sum = PInf, g_count = 2\<rparr>)]
   \<and> stockGroups [[''name'' \<mapsto> ''A'', ''chg_%'' \<mapsto> ''1'']] =
       Inr [(''a'', \<lparr>g_category = ''Stock'', g_code = ''A'', g_name = None,
                     g_sum = Fin 1, g_count = 1\<rparr>)]"
  by code_simp

section \<open>Order of the results\<close>

text \<open>
  C8. The aggregation and the selection are functions of the rows: two runs on the same
  rows give the same aggregates and the same selections, in the same order. The order
  itself depends on the rows only. The groups appear in the order in which their keys
  are first folded. In the selection, positive entries with the same mean keep the order
  of the aggregates (the sort is stable) and negative entries with the same mean appear
  in the reverse of that order (the slice is reversed).
\<close>

theorem pipeline_deterministic:
  "(stocksRaw' = stocksRaw \<and> cryptoRaw' = cryptoRaw \<longrightarrow>
      renderMarketViz stocksRaw' cryptoRaw' = renderMarketViz stocksRaw cryptoRaw
    \<and> stocks stocksRaw' = stocks stocksRaw
    \<and> select_stocks posN negN stocksRaw' = select_stocks posN negN stocksRaw)
 \<and> (stockGroups rows = Inr m \<longrightarrow>
      map fst m = first_seen (map key_of (filter valid_pct rows)))
 \<and> (stocks rows = Inr st \<longrightarrow>
      pickTopBottom posN negN st = positives posN st @ negatives negN st
    \<and> (\<forall>v. js_less (Fin 0) v \<longrightarrow>
          (\<exists>k. filter (\<lambda>d. avgPct d = v) (pickTopBottom posN negN st)
                 = take k (filter (\<lambda>d. avgPct d = v) st)))
    \<and> (\<forall>v. js_less v (Fin 0) \<longrightarrow>
          (\<exists>k. filter (\<lambda>d. avgPct d = v) (pickTopBottom posN negN st)
                 = rev (take k (filter (\<lambda>d. avgPct d = v) st)))))"
proof (intro conjI impI allI)
  assume "stocksRaw' = stocksRaw \<and> cryptoRaw' = cryptoRaw"
  then show "renderMarketViz stocksRaw' cryptoRaw' = renderMarketViz stocksRaw cryptoRaw"
    "stocks stocksRaw' = stocks stocksRaw"
    "select_stocks posN negN stocksRaw' = select_stocks posN negN stocksRaw"
    by simp_all
next
  assume "stockGroups rows = Inr m"
  then have "for_of stock_step [] rows = Inr m" by (simp add: stockGroups_def)
  from for_of_stock_keys [OF this] show "map fst m = first_seen (map key_of (filter valid_pct rows))"
    by simp
next
  assume st: "stocks rows = Inr st"
  note eq = pickTopBottom_distinct [OF stocks_ids_distinct [OF st], of posN negN]
  show "pickTopBottom posN negN st = positives posN st @ negatives negN st" by (rule eq)
  fix v
  {
    assume v: "js_less (Fin 0) v"
    have "filter (\<lambda>d. avgPct d = v) (negatives negN st) = []"
    proof -
      have "\<not> (is_neg d \<and> avgPct d = v)" for d
        using v by (cases v) (auto simp: is_neg_def)
      with negatives_sub [of negN st] show ?thesis by (auto simp: filter_empty_conv)
    qed
    with positives_ties [OF v, of posN st]
    show "\<exists>k. filter (\<lambda>d. avgPct d = v) (pickTopBottom posN negN st)
                 = take k (filter (\<lambda>d. avgPct d = v) st)"
      by (simp add: eq)
  }
  {
    assume v: "js_less v (Fin 0)"
    have "filter (\<lambda>d. avgPct d = v) (positives posN st) = []"
    proof -
      have "\<not> (is_pos d \<and> avgPct d = v)" for d
        using v by (cases v) (auto simp: is_pos_def)
      with positives_sub [of posN st] show ?thesis by (auto simp: filter_empty_conv)
    qed
    with negatives_ties [OF v, of negN st]
    show "\<exists>k. filter (\<lambda>d. avgPct d = v) (pickTopBottom posN negN st)
                 = rev (take k (filter (\<lambda>d. avgPct d = v) st))"
      by (simp add: eq)
  }
qed

theorem pipeline_deterministic_witness:
  "stockGroups [[''name'' \<mapsto> ''B'', ''chg_%'' \<mapsto> ''2''],
                [''name'' \<mapsto> ''A'', ''chg_%'' \<mapsto> ''2''],
                [''name'' \<mapsto> ''b'', ''chg_%'' \<mapsto> ''2'']] =
     Inr [(''b'', \<lparr>g_category = ''Stock'', g_code = ''B'', g_name = None,
                   g_sum = Fin 4, g_count = 2\<rparr>),
          (''a'', \<lparr>g_category = ''Stock'', g_code = ''A'', g_name = None,
                   g_sum = Fin 2, g_count = 1\<rparr>)]
   \<and> map fst [(''b'', \<lparr>g_category = ''Stock'', g_code = ''B'', g_name = None,
                        g_sum = Fin 4, g_count = 2\<rparr>),
               (''a'', \<lparr>g_category = ''Stock'', g_code = ''A'', g_name = None,
                        g_sum = Fin 2, g_count = 1\<rparr>)]
     = first_seen (map key_of (filter valid_pct
                     [[''name'' \<mapsto> ''B'', ''chg_%'' \<mapsto> ''2''],
                      [''name'' \<mapsto> ''A'', ''chg_%'' \<mapsto> ''2''],
                      [''name'' \<mapsto> ''b'', ''chg_%'' \<mapsto> ''2'']]))
   \<and> stocks [[''name'' \<mapsto> ''B'', ''chg_%'' \<mapsto> ''2''],
              [''name'' \<mapsto> ''A'', ''chg_%'' \<mapsto> ''2''],
              [''name'' \<mapsto> ''b'', ''chg_%'' \<mapsto> ''2'']] =
     Inr [\<lparr>a_id = ''Stock|B'', a_category = ''Stock'', a_code = ''B'', a_name = None,
           avgPct = Fin 2, absAvgPct = Fin 2, a_count = 2\<rparr>,
          \<lparr>a_id = ''Stock|A'', a_category = ''Stock'', a_code = ''A'', a_name = None,
           avgPct = Fin 2, absAvgPct = Fin 2, a_count = 1\<rparr>]
   \<and> pickTopBottom 1 1
         [\<lparr>a_id = ''Stock|B'', a_category = ''Stock'', a_code = ''B'', a_name = None,
           avgPct = Fin 2, absAvgPct = Fin 2, a_count = 2\<rparr>,
          \<lparr>a_id = ''Stock|A'', a_category = ''Stock'', a_code = ''A'', a_name = None,
           avgPct = Fin 2, absAvgPct = Fin 2, a_count = 1\<rparr>]
     = [\<lparr>a_id = ''Stock|B'', a_category = ''Stock'', a_code = ''B'', a_name = None,
         avgPct = Fin 2, absAvgPct = Fin 2, a_count = 2\<rparr>]"
proof -
  let ?rows = "[[''name'' \<mapsto> ''B'', ''chg_%'' \<mapsto> ''2''],
                [''name'' \<mapsto> ''A'', ''chg_%'' \<mapsto> ''2''],
                [''name'' \<mapsto> ''b'', ''chg_%'' \<mapsto> ''2'']]"
  let ?b = "\<lparr>a_id = ''Stock|B'', a_category = ''Stock'', a_code = ''B'', a_name = None,
             avgPct = Fin 2, absAvgPct = Fin 2, a_count = 2\<rparr>"
  let ?a = "\<lparr>a_id = ''Stock|A'', a_category = ''Stock'', a_code = ''A'', a_name = None,
             avgPct = Fin 2, absAvgPct = Fin 2, a_count = 1\<rparr>"
  have run: "stockGroups ?rows =
     Inr [(''b'', \<lparr>g_category = ''Stock'', g_code = ''B'', g_name = None,
                   g_sum = Fin 4, g_count = 2\<rparr>),
          (''a'', \<lparr>g_category = ''Stock'', g_code = ''A'', g_name = None,
                   g_sum = Fin 2, g_count = 1\<rparr>)]"
    by code_simp
  have st: "stocks ?rows = Inr [?b, ?a]"
    by code_simp
  have cand: "positives 1 [?b, ?a] @ negatives 1 [?b, ?a] = [?b]"
    by code_simp
  note th = pipeline_deterministic [where posN = 1 and negN = 1]
  from th [THEN conjunct2, THEN conjunct2, rule_format, OF st, THEN conjunct1] cand
  have sel: "pickTopBottom 1 1 [?b, ?a] = [?b]" by simp
  from run th [THEN conjunct2, THEN conjunct1, rule_format, OF run] st sel
  show ?thesis by (intro conjI)
qed

section \<open>Normalised values\<close>




section \<open>Counts and the unknown sector\<close>

text \<open>
  C9. Every crypto leaf has \<open>count = 1\<close>, however many rows carry its symbol, while
  the count of a stock leaf is the number of stock rows of its sector. Three rows of
  one coin give the count 1, three rows of one sector give the count 3.
\<close>

theorem leaf_counts:
  "(\<exists>cs. cryptoChildren cryptoRows = Inr cs
      \<and> (\<forall>c \<in> set cs. l_count c = 1
            \<and> 1 \<le> length (filter (\<lambda>r. r ''symbol'' = l_symbol c) cryptoRows)))
 \<and> (\<forall>c \<in> set (stockChildren companyRows stockRows).
       \<exists>sector. l_name c = Some sector
          \<and> l_count c = length (sector_rows companyRows stockRows sector)
          \<and> 1 \<le> l_count c)
 \<and> map_sum id (map l_count)
      (cryptoChildren [[''symbol'' \<mapsto> ''BTC'', ''market_cap'' \<mapsto> ''10''],
                       [''symbol'' \<mapsto> ''BTC'', ''market_cap'' \<mapsto> ''20''],
                       [''symbol'' \<mapsto> ''BTC'', ''market_cap'' \<mapsto> ''30'']]) = Inr [1]
 \<and> map l_count
      (stockChildren [[''ticker'' \<mapsto> ''A'', ''sector'' \<mapsto> ''Tech''],
                      [''ticker'' \<mapsto> ''B'', ''sector'' \<mapsto> ''Tech'']]
                     [[''symbol'' \<mapsto> ''A'', ''vol_'' \<mapsto> ''10''],
                      [''symbol'' \<mapsto> ''B'', ''vol_'' \<mapsto> ''20''],
                      [''symbol'' \<mapsto> ''A'', ''vol_'' \<mapsto> ''30'']]) = [3]"
proof -
  from cryptoAgg_total obtain agg where agg: "cryptoAgg cryptoRows = Inr agg"
    and keys: "map fst agg = map fst (d3_group (\<lambda>r. r ''symbol'') cryptoRows)" by blast
  have one: "l_count c = 1 \<and> 1 \<le> length (filter (\<lambda>r. r ''symbol'' = l_symbol c) cryptoRows)"
    if "c \<in> set (crypto_leaves agg)" for c
  proof -
    from crypto_leaves_values(3,4) [OF that] keys
    have cnt: "l_count c = 1"
      and "l_symbol c \<in> set (map fst (d3_group (\<lambda>r. r ''symbol'') cryptoRows))"
      by simp_all
    then obtain g where "(l_symbol c, g) \<in> set (d3_group (\<lambda>r. r ''symbol'') cryptoRows)"
      by auto
    then have "filter (\<lambda>r. r ''symbol'' = l_symbol c) cryptoRows \<noteq> []"
      by (auto simp: d3_group_mem)
    then have "1 \<le> length (filter (\<lambda>r. r ''symbol'' = l_symbol c) cryptoRows)"
      by (cases "filter (\<lambda>r. r ''symbol'' = l_symbol c) cryptoRows") simp_all
    with cnt show ?thesis by simp
  qed
  then have "\<forall>c \<in> set (crypto_leaves agg). l_count c = 1
            \<and> 1 \<le> length (filter (\<lambda>r. r ''symbol'' = l_symbol c) cryptoRows)" ..
  with cryptoChildren_leaves [OF agg]
  have a: "\<exists>cs. cryptoChildren cryptoRows = Inr cs
      \<and> (\<forall>c \<in> set cs. l_count c = 1
            \<and> 1 \<le> length (filter (\<lambda>r. r ''symbol'' = l_symbol c) cryptoRows))"
    by (intro exI [of _ "crypto_leaves agg"] conjI)
  have b: "\<forall>c \<in> set (stockChildren companyRows stockRows).
       \<exists>sector. l_name c = Some sector
          \<and> l_count c = length (sector_rows companyRows stockRows sector)
          \<and> 1 \<le> l_count c"
  proof
    fix c assume "c \<in> set (stockChildren companyRows stockRows)"
    from stockChildren_values(3) [OF this] obtain sector where
      s: "l_name c = Some sector" "sector_rows companyRows stockRows sector \<noteq> []"
        "l_count c = length (sector_rows companyRows stockRows sector)" by blast
    from s(2,3) have "1 \<le> l_count c"
      by (cases "sector_rows companyRows stockRows sector") simp_all
    with s(1,3) show "\<exists>sector. l_name c = Some sector
          \<and> l_count c = length (sector_rows companyRows stockRows sector)
          \<and> 1 \<le> l_count c" by blast
  qed
  have c: "map_sum id (map l_count)
      (cryptoChildren [[''symbol'' \<mapsto> ''BTC'', ''market_cap'' \<mapsto> ''10''],
                       [''symbol'' \<mapsto> ''BTC'', ''market_cap'' \<mapsto> ''20''],
                       [''symbol'' \<mapsto> ''BTC'', ''market_cap'' \<mapsto> ''30'']]) = Inr [1]"
    by code_simp
  have d: "map l_count
      (stockChildren [[''ticker'' \<mapsto> ''A'', ''sector'' \<mapsto> ''Tech''],
                      [''ticker'' \<mapsto> ''B'', ''sector'' \<mapsto> ''Tech'']]
                     [[''symbol'' \<mapsto> ''A'', ''vol_'' \<mapsto> ''10''],
                      [''symbol'' \<mapsto> ''B'', ''vol_'' \<mapsto> ''20''],
                      [''symbol'' \<mapsto> ''A'', ''vol_'' \<mapsto> ''30'']]) = [3]"
    by code_simp
  from a b c d show ?thesis by (intro conjI)
qed

theorem leaf_counts_witness:
  "stockChildren [] [[''symbol'' \<mapsto> ''A'', ''vol_'' \<mapsto> ''2''],
                     [''symbol'' \<mapsto> ''B'', ''vol_'' \<mapsto> ''3'']] =
     [\<lparr>l_name = Some ''Unknown'', l_symbol = None, l_type = ''Stocks'', rawValue = Fin 5,
       avgChange = Some (Fin 0), l_count = 2, l_value = Fin 1\<rparr>]
   \<and> (\<exists>sector. l_name \<lparr>l_name = Some ''Unknown'', l_symbol = None, l_type = ''Stocks'',
                         rawValue = Fin 5, avgChange = Some (Fin 0), l_count = 2,
                         l_value = Fin 1\<rparr> = Some sector
        \<and> l_count \<lparr>l_name = Some ''Unknown'', l_symbol = None, l_type = ''Stocks'',
                    rawValue = Fin 5, avgChange = Some (Fin 0), l_count = 2,
                    l_value = Fin 1\<rparr>
          = length (sector_rows [] [[''symbol'' \<mapsto> ''A'', ''vol_'' \<mapsto> ''2''],
                                   [''symbol'' \<mapsto> ''B'', ''vol_'' \<mapsto> ''3'']] sector)
        \<and> 1 \<le> l_count \<lparr>l_name = Some ''Unknown'', l_symbol = None, l_type = ''Stocks'',
                         rawValue = Fin 5, avgChange = Some (Fin 0), l_count = 2,
                         l_value = Fin 1\<rparr>)"
proof -
  let ?rows = "[[''symbol'' \<mapsto> ''A'', ''vol_'' \<mapsto> ''2''],
                [''symbol'' \<mapsto> ''B'', ''vol_'' \<mapsto> ''3'']]"
  let ?leaf = "\<lparr>l_name = Some ''Unknown'', l_symbol = None, l_type = ''Stocks'',
                rawValue = Fin 5, avgChange = Some (Fin 0), l_count = 2, l_value = Fin 1\<rparr>"
  have run: "stockChildren [] ?rows = [?leaf]" by code_simp
  then have mem: "?leaf \<in> set (stockChildren [] ?rows)" by simp
  from leaf_counts [where companyRows = "[]" and stockRows = ?rows,
      THEN conjunct2, THEN conjunct1, rule_format, OF mem] run
  show ?thesis by (intro conjI)
qed

text \<open>
  C10. A stock row whose symbol has no company row, or whose (last) company row has a
  missing or empty sector, is grouped under the sector \<open>Unknown\<close>: it is one of the
  rows reduced by that group, which counts them all. The group becomes a leaf under the
  same condition as every sector, a positive total, and then has
  \<open>value = rawValue / stockTotal\<close>.
\<close>

theorem unknown_sector:
  assumes "r \<in> set stockRows"
    and "case find (\<lambda>c. c ''ticker'' = r ''symbol'') (rev companyRows) of
           None \<Rightarrow> True
         | Some c \<Rightarrow> c ''sector'' = None \<or> c ''sector'' = Some []"
  shows "sector_key companyRows r = ''Unknown''
       \<and> r \<in> set (sector_rows companyRows stockRows ''Unknown'')
       \<and> Map_get (sectorAgg companyRows stockRows) ''Unknown''
           = Some (sector_reduce (sector_rows companyRows stockRows ''Unknown''))
       \<and> s_count (sector_reduce (sector_rows companyRows stockRows ''Unknown''))
           = length (sector_rows companyRows stockRows ''Unknown'')
       \<and> (stock_leaf ''Unknown'' (sector_reduce (sector_rows companyRows stockRows ''Unknown''))
             \<in> set (stockChildrenRaw companyRows stockRows)
           \<longleftrightarrow> js_less (Fin 0)
                 (totalLiquidity (sector_reduce (sector_rows companyRows stockRows ''Unknown''))))
       \<and> (js_less (Fin 0)
             (totalLiquidity (sector_reduce (sector_rows companyRows stockRows ''Unknown'')))
           \<longrightarrow> (\<exists>c \<in> set (stockChildren companyRows stockRows).
                  l_name c = Some ''Unknown''
                \<and> rawValue c
                    = totalLiquidity (sector_reduce (sector_rows companyRows stockRows ''Unknown''))
                \<and> l_count c = length (sector_rows companyRows stockRows ''Unknown'')
                \<and> l_value c = js_div (rawValue c) (stockTotal companyRows stockRows)))"
proof -
  let ?rows = "sector_rows companyRows stockRows ''Unknown''"
  let ?leaf = "stock_leaf ''Unknown'' (sector_reduce ?rows)"
  from sector_key_unknown [where r = r and companyRows = companyRows, OF assms(2)] have key: "sector_key companyRows r = ''Unknown''" .
  with assms(1) have mem: "r \<in> set ?rows" by (simp add: sector_rows_def)
  then have ne: "?rows \<noteq> []" by auto
  then have get: "Map_get (sectorAgg companyRows stockRows) ''Unknown'' = Some (sector_reduce ?rows)"
    by (simp add: sectorAgg_get)
  have raw: "rawValue ?leaf = totalLiquidity (sector_reduce ?rows)"
    by (simp add: stock_leaf_def)
  have iff: "?leaf \<in> set (stockChildrenRaw companyRows stockRows)
             \<longleftrightarrow> js_less (Fin 0) (totalLiquidity (sector_reduce ?rows))"
  proof
    assume "?leaf \<in> set (stockChildrenRaw companyRows stockRows)"
    then have "js_less (Fin 0) (rawValue ?leaf)" by (auto simp: stockChildrenRaw_mem)
    with raw show "js_less (Fin 0) (totalLiquidity (sector_reduce ?rows))" by simp
  next
    assume "js_less (Fin 0) (totalLiquidity (sector_reduce ?rows))"
    with raw have "js_less (Fin 0) (rawValue ?leaf)" by simp
    with ne show "?leaf \<in> set (stockChildrenRaw companyRows stockRows)"
      unfolding stockChildrenRaw_mem by blast
  qed
  have leaf: "\<exists>c \<in> set (stockChildren companyRows stockRows).
                  l_name c = Some ''Unknown''
                \<and> rawValue c = totalLiquidity (sector_reduce ?rows)
                \<and> l_count c = length ?rows
                \<and> l_value c = js_div (rawValue c) (stockTotal companyRows stockRows)"
    if "js_less (Fin 0) (totalLiquidity (sector_reduce ?rows))"
  proof -
    from that iff have "?leaf \<in> set (stockChildrenRaw companyRows stockRows)" by simp
    then have "leaf_raw.extend ?leaf
                 \<lparr>l_value = js_div (rawValue ?leaf) (stockTotal companyRows stockRows)\<rparr>
               \<in> set (stockChildren companyRows stockRows)"
      by (auto simp: stockChildren_mem)
    then show ?thesis
      by (rule rev_bexI) (simp add: extend_fields stock_leaf_def sector_reduce_count)
  qed
  from key mem get sector_reduce_count [of ?rows] iff leaf show ?thesis by (intro conjI impI)
qed

theorem unknown_sector_witness:
  "[''symbol'' \<mapsto> ''ZZZ'', ''vol_'' \<mapsto> ''50'']
     \<in> set [[''symbol'' \<mapsto> ''A'', ''vol_'' \<mapsto> ''150''],
             [''symbol'' \<mapsto> ''ZZZ'', ''vol_'' \<mapsto> ''50'']]
   \<and> find (\<lambda>c. c ''ticker'' = [''symbol'' \<mapsto> ''ZZZ'', ''vol_'' \<mapsto> ''50''] ''symbol'')
        (rev [[''ticker'' \<mapsto> ''A'', ''sector'' \<mapsto> ''Tech'']]) = None
   \<and> sector_key [[''ticker'' \<mapsto> ''A'', ''sector'' \<mapsto> ''Tech'']]
        [''symbol'' \<mapsto> ''ZZZ'', ''vol_'' \<mapsto> ''50''] = ''Unknown''
   \<and> map (\<lambda>c. (l_name c, l_count c, l_value c))
        (stockChildren [[''ticker'' \<mapsto> ''A'', ''sector'' \<mapsto> ''Tech'']]
                       [[''symbol'' \<mapsto> ''A'', ''vol_'' \<mapsto> ''150''],
                        [''symbol'' \<mapsto> ''ZZZ'', ''vol_'' \<mapsto> ''50'']])
     = [(Some ''Tech'', 1, Fin (3 / 4)), (Some ''Unknown'', 1, Fin (1 / 4))]"
proof -
  let ?r = "[''symbol'' \<mapsto> ''ZZZ'', ''vol_'' \<mapsto> ''50'']"
  let ?rows = "[[''symbol'' \<mapsto> ''A'', ''vol_'' \<mapsto> ''150''], ?r]"
  let ?comp = "[[''ticker'' \<mapsto> ''A'', ''sector'' \<mapsto> ''Tech'']]"
  have mem: "?r \<in> set ?rows" by simp
  have f: "find (\<lambda>c. c ''ticker'' = ?r ''symbol'') (rev ?comp) = None" by simp
  then have h: "case find (\<lambda>c. c ''ticker'' = ?r ''symbol'') (rev ?comp) of
           None \<Rightarrow> True
         | Some c \<Rightarrow> c ''sector'' = None \<or> c ''sector'' = Some []"
    by simp
  have run: "map (\<lambda>c. (l_name c, l_count c, l_value c)) (stockChildren ?comp ?rows)
     = [(Some ''Tech'', 1, Fin (3 / 4)), (Some ''Unknown'', 1, Fin (1 / 4))]"
    by code_simp
  from mem f unknown_sector [where r = ?r and stockRows = ?rows and companyRows = ?comp,
      OF mem h, THEN conjunct1] run
  show ?thesis by (intro conjI)
qed

end
